theory Spec2Isabelle
  imports Main "HOL-Library.Sublist" "HOL-Library.List_Lexorder"
begin

section \<open>Python strings\<close>

text \<open>
  A Python \<open>str\<close> is modelled as a HOL \<open>string\<close>, one \<open>char\<close> per character, so
  \<open>len(s)\<close> is \<open>length s\<close>.  The functions below are the library operations of \<open>str\<close>
  that \<open>scripts/translate_ru_to_uz.py\<close> calls.
\<close>

text \<open>\<open>c.isspace()\<close> on the characters 0..255: tab, line feed, vertical tab, form feed,
  carriage return, the four separators 28..31, the space, the next-line control U+0085
  and the no-break space U+00A0.  These are the characters that \<open>str.strip()\<close> removes
  and that the whitespace class of \<open>re\<close> matches.\<close>

definition isspace :: "char \<Rightarrow> bool" where
  "isspace c = (let n = (of_char c :: nat)
                in (9 \<le> n \<and> n \<le> 13) \<or> (28 \<le> n \<and> n \<le> 32) \<or> n = 133 \<or> n = 160)"

text \<open>\<open>s.strip()\<close>\<close>

definition strip :: "string \<Rightarrow> string" where
  "strip s = rev (dropWhile isspace (rev (dropWhile isspace s)))"

text \<open>\<open>s.lower()\<close> on the characters 0..255: the letters A..Z and the capital letters
  U+00C0..U+00DE (the multiplication sign U+00D7 is no letter) move up by 32.\<close>

definition lower_char :: "char \<Rightarrow> char" where
  "lower_char c =
     (let n = (of_char c :: nat)
      in if (65 \<le> n \<and> n \<le> 90) \<or> (192 \<le> n \<and> n \<le> 222 \<and> n \<noteq> 215) then char_of (n + 32) else c)"

definition lower :: "string \<Rightarrow> string" where
  "lower s = map lower_char s"

text \<open>\<open>sub in s\<close>\<close>

fun contains :: "string \<Rightarrow> string \<Rightarrow> bool" where
  "contains [] sub = (sub = [])"
| "contains (c # cs) sub = (prefix sub (c # cs) \<or> contains cs sub)"

text \<open>\<open>s.replace(old, new)\<close> for a non-empty \<open>old\<close>: scan from the left, replace each
  occurrence found and continue behind it.\<close>

function replace_scan :: "string \<Rightarrow> string \<Rightarrow> string \<Rightarrow> string" where
  "replace_scan [] old new = []"
| "replace_scan (c # cs) old new =
     (if old \<noteq> [] \<and> prefix old (c # cs)
      then new @ replace_scan (drop (length old) (c # cs)) old new
      else c # replace_scan cs old new)"
  by pat_completeness auto
termination
  by (relation "measure (\<lambda>(s, old, new). length s)") (auto simp: Suc_le_eq)

text \<open>\<open>s.replace(old, new)\<close>; an empty \<open>old\<close> matches before every character and at the end.\<close>

definition py_replace :: "string \<Rightarrow> string \<Rightarrow> string \<Rightarrow> string" where
  "py_replace s old new =
     (if old = [] then new @ concat (map (\<lambda>c. c # new) s) else replace_scan s old new)"

text \<open>\<open>s.count(sub)\<close>: the number of non-overlapping occurrences, scanning from the left.\<close>

function count_scan :: "string \<Rightarrow> string \<Rightarrow> nat" where
  "count_scan [] sub = 0"
| "count_scan (c # cs) sub =
     (if sub \<noteq> [] \<and> prefix sub (c # cs)
      then Suc (count_scan (drop (length sub) (c # cs)) sub)
      else count_scan cs sub)"
  by pat_completeness auto
termination
  by (relation "measure (\<lambda>(s, sub). length s)") (auto simp: Suc_le_eq)

definition py_count :: "string \<Rightarrow> string \<Rightarrow> int" where
  "py_count s sub = (if sub = [] then int (length s) + 1 else int (count_scan s sub))"

text \<open>\<open>s * n\<close> for an integer \<open>n\<close> (the empty string when \<open>n \<le> 0\<close>).\<close>

definition py_mul :: "string \<Rightarrow> int \<Rightarrow> string" where
  "py_mul s n = concat (replicate (nat n) s)"

section \<open>Glossary rules\<close>

text \<open>
  A glossary row is \<open>(source, target, mode)\<close>.  \<open>re.sub\<close> belongs to Python's library and
  is a parameter \<open>re_sub\<close> of the model: \<open>re_sub pattern repl text\<close> is \<open>Some\<close> of the
  result, or \<open>None\<close> when the pattern raises \<open>re.error\<close>.
\<close>

type_synonym glossary_rule = "string \<times> string \<times> string"
type_synonym regex_sub = "string \<Rightarrow> string \<Rightarrow> string \<Rightarrow> string option"

fun apply_pre_glossary :: "regex_sub \<Rightarrow> string \<Rightarrow> glossary_rule list \<Rightarrow> string" where
  "apply_pre_glossary re_sub text [] = text"
| "apply_pre_glossary re_sub text ((source, target, mode) # glossary) =
     (if mode = ''dt'' \<or> mode = ''exact''
      then apply_pre_glossary re_sub (py_replace text source target) glossary
      else if mode = ''regex''
      then (case re_sub source target text of
              Some text' \<Rightarrow> apply_pre_glossary re_sub text' glossary
            | None \<Rightarrow> apply_pre_glossary re_sub text glossary)
      else apply_pre_glossary re_sub text glossary)"

fun apply_post_glossary :: "string \<Rightarrow> glossary_rule list \<Rightarrow> string" where
  "apply_post_glossary text [] = text"
| "apply_post_glossary text ((source, target, mode) # glossary) =
     (if mode \<in> {''dt'', ''exact''}
      then apply_post_glossary (py_replace text target target) glossary
      else apply_post_glossary text glossary)"

section \<open>Translation cache\<close>

text \<open>\<open>CacheStore.cache\<close> is a dict from source text to translation.\<close>

type_synonym cache_store = "string \<rightharpoonup> string"

definition cache_get :: "cache_store \<Rightarrow> string \<Rightarrow> string option" where
  "cache_get cache text = cache text"

definition cache_set :: "cache_store \<Rightarrow> string \<Rightarrow> string \<Rightarrow> cache_store" where
  "cache_set cache text translated = cache(text \<mapsto> translated)"

section \<open>Translation client\<close>

text \<open>
  The translation service is an external collaborator: a state machine that answers each
  request for a batch.  \<open>Reply_OK ts\<close> is a 200 answer whose \<open>translations\<close> carry the
  texts \<open>ts\<close>, \<open>Reply_429\<close> the rate-limit status, \<open>Reply_Error\<close> any failure that
  \<open>requests\<close> raises as a \<open>RequestException\<close> (another error status, a timeout, a broken
  connection), \<open>Reply_Malformed\<close> a 200 answer whose body makes \<open>translate_batch\<close> raise
  anything else.
\<close>

datatype reply = Reply_OK "string list" | Reply_429 | Reply_Error | Reply_Malformed

datatype exn = RateLimitError | RequestException | OtherException | ValueError

type_synonym 's service = "'s \<Rightarrow> string list \<Rightarrow> reply \<times> 's"

record translator =
  batch_size :: int
  max_chars :: int
  rpm :: int

definition translate_batch ::
  "'s service \<Rightarrow> string list \<Rightarrow> 's \<Rightarrow> (exn + string list) \<times> 's" where
  "translate_batch svc texts s =
     (case svc s texts of
        (Reply_429, s') \<Rightarrow> (Inl RateLimitError, s')
      | (Reply_Error, s') \<Rightarrow> (Inl RequestException, s')
      | (Reply_Malformed, s') \<Rightarrow> (Inl OtherException, s')
      | (Reply_OK ts, s') \<Rightarrow> (Inr ts, s'))"

text \<open>The inner \<open>while\<close> of \<open>translate\<close> (lines 95-103): \<open>rest\<close> is \<open>texts[i:]\<close>, the result
  is the batch and the texts left behind it.\<close>

fun build_batch ::
  "translator \<Rightarrow> string list \<Rightarrow> int \<Rightarrow> string list \<Rightarrow> string list \<times> string list" where
  "build_batch tr batch batch_chars [] = (batch, [])"
| "build_batch tr batch batch_chars (next_text # rest) =
     (if int (length batch) < batch_size tr then
        (if batch_chars + int (length next_text) > max_chars tr \<and> batch \<noteq> []
         then (batch, next_text # rest)
         else build_batch tr (batch @ [next_text]) (batch_chars + int (length next_text)) rest)
      else (batch, next_text # rest))"

text \<open>The \<open>for attempt in range(6)\<close> loop (lines 114-127).  \<open>Inl e\<close>: the exception \<open>e\<close>
  leaves the loop; \<open>Inr (Some translated)\<close>: the \<open>break\<close> after a successful call;
  \<open>Inr None\<close>: the range is exhausted and the loop ends without \<open>break\<close>.  The
  \<open>time.sleep(backoff)\<close> between attempts changes no value and is left out.\<close>

function call_with_retries ::
  "'s service \<Rightarrow> string list \<Rightarrow> nat \<Rightarrow> 's \<Rightarrow> (exn + string list option) \<times> 's" where
  "call_with_retries svc batch attempt s =
     (if attempt < 6 then
        (case translate_batch svc batch s of
           (Inr translated, s') \<Rightarrow> (Inr (Some translated), s')
         | (Inl RateLimitError, s') \<Rightarrow> call_with_retries svc batch (attempt + 1) s'
         | (Inl RequestException, s') \<Rightarrow>
             (if attempt \<ge> 5 then (Inl RequestException, s')
              else call_with_retries svc batch (attempt + 1) s')
         | (Inl e, s') \<Rightarrow> (Inl e, s'))
      else (Inr None, s))"
  by pat_completeness auto
termination
  by (relation "measure (\<lambda>(svc, batch, attempt, s). 6 - attempt)") auto

text \<open>The outer \<open>while i < len(texts)\<close> (lines 93-128).  The loop need not end (a
  \<open>batch_size\<close> below 1 builds empty batches for ever), so the result is an option:
  \<open>None\<close> is a run that never returns.  The wall clock of the rate limiter is not
  modelled; \<open>requests_used\<close> is reset where the code resets it.\<close>

partial_function (option) translate_loop ::
  "translator \<Rightarrow> 's service \<Rightarrow> string list \<Rightarrow> string list \<Rightarrow> int \<Rightarrow> 's \<Rightarrow>
   ((exn + string list) \<times> 's) option" where
  "translate_loop tr svc rest results requests_used s =
     (if rest \<noteq> [] then
        (case build_batch tr [] 0 rest of (batch, rest') \<Rightarrow>
          (case (if requests_used \<ge> rpm tr then 0 else requests_used) of used \<Rightarrow>
           (case call_with_retries svc batch 0 s of
              (Inl e, s') \<Rightarrow> Some (Inl e, s')
            | (Inr (Some translated), s') \<Rightarrow>
                translate_loop tr svc rest' (results @ translated) (used + 1) s'
            | (Inr None, s') \<Rightarrow> translate_loop tr svc rest' results used s')))
      else Some (Inr results, s))"

declare translate_loop.simps [code]

definition translate ::
  "translator \<Rightarrow> 's service \<Rightarrow> string list \<Rightarrow> 's \<Rightarrow> ((exn + string list) \<times> 's) option" where
  "translate tr svc texts s = translate_loop tr svc texts [] 0 s"

section \<open>Translation orchestrator\<close>

text \<open>The dict \<open>mapping\<close> of \<open>translate_unique\<close> holds \<open>None\<close> for a text still to be
  translated: its values are optional strings.\<close>

type_synonym mapping = "string \<rightharpoonup> string option"

text \<open>\<open>cache.get(t) or None\<close>: an absent entry and an empty translation both give \<open>None\<close>.\<close>

definition get_or_none :: "cache_store \<Rightarrow> string \<Rightarrow> string option" where
  "get_or_none cache t =
     (case cache_get cache t of None \<Rightarrow> None | Some v \<Rightarrow> if v = [] then None else Some v)"

text \<open>The first loop of \<open>translate_unique\<close> (lines 319-323).\<close>

fun collect_unique ::
  "string list \<Rightarrow> cache_store \<Rightarrow> mapping \<Rightarrow> string list \<Rightarrow> mapping \<times> string list" where
  "collect_unique [] cache mapping unique = (mapping, unique)"
| "collect_unique (t # texts) cache mapping unique =
     (if mapping t = None then
        (let mapping' = mapping(t \<mapsto> get_or_none cache t) in
         if mapping' t = Some None
         then collect_unique texts cache mapping' (unique @ [t])
         else collect_unique texts cache mapping' unique)
      else collect_unique texts cache mapping unique)"

text \<open>The second loop (lines 326-329), over \<open>zip(unique, translated)\<close>.\<close>

fun store_translations ::
  "(string \<times> string) list \<Rightarrow> glossary_rule list \<Rightarrow> cache_store \<Rightarrow> mapping \<Rightarrow>
   cache_store \<times> mapping" where
  "store_translations [] glossary cache mapping = (cache, mapping)"
| "store_translations ((src, tgt) # pairs) glossary cache mapping =
     (let tgt' = apply_post_glossary tgt glossary
      in store_translations pairs glossary (cache_set cache src tgt') (mapping(src \<mapsto> Some tgt')))"


definition translate_unique ::
  "translator \<Rightarrow> 's service \<Rightarrow> string list \<Rightarrow> cache_store \<Rightarrow> glossary_rule list \<Rightarrow> 's \<Rightarrow>
   ((exn + mapping) \<times> cache_store \<times> 's) option" where
  "translate_unique tr svc texts cache glossary s =
     (case collect_unique texts cache Map.empty [] of (mapping, unique) \<Rightarrow>
        if unique \<noteq> [] then
          (case translate tr svc unique s of
             None \<Rightarrow> None
           | Some (Inl e, s') \<Rightarrow> Some (Inl e, cache, s')
           | Some (Inr translated, s') \<Rightarrow>
               (case store_translations (zip unique translated) glossary cache mapping of
                  (cache', mapping') \<Rightarrow> Some (Inr mapping', cache', s')))
        else Some (Inr mapping, cache, s))"

text \<open>\<open>[mapping.get(t, t) for t in node_texts]\<close>\<close>

definition replace_texts :: "string list \<Rightarrow> mapping \<Rightarrow> string option list" where
  "replace_texts node_texts mapping =
     map (\<lambda>t. case mapping t of Some v \<Rightarrow> v | None \<Rightarrow> Some t) node_texts"

section \<open>Documents\<close>

text \<open>
  A parsed document is the tree BeautifulSoup builds.  \<open>NavigableString\<close>, \<open>Comment\<close>
  and \<open>Doctype\<close> are the string nodes (in bs4 the classes \<open>Comment\<close> and \<open>Doctype\<close>
  are subclasses of \<open>NavigableString\<close>); \<open>Tag name attrs contents\<close> is an element.
  An attribute value is kept as its text; bs4 splits only the values of the multi-valued
  attributes (\<open>class\<close>, \<open>rel\<close>, ...) into lists, and none of the attributes whose value
  the script reads (\<open>title\<close>, \<open>alt\<close>, \<open>aria-label\<close>, \<open>placeholder\<close>, \<open>content\<close>,
  \<open>lang\<close>, \<open>style\<close>, \<open>hreflang\<close>) is one, so \<open>isinstance(val, str)\<close> holds for each.
  The \<open>BeautifulSoup\<close> object is the list of its top-level nodes; its own name is
  \<open>[document]\<close>.  A node is addressed by its path: the child indices from the top.
\<close>

datatype node =
    NavigableString string
  | Comment string
  | Doctype string
  | Tag string "(string \<times> string) list" "node list"

type_synonym soup = "node list"
type_synonym path = "nat list"

fun is_navigable_string :: "node \<Rightarrow> bool" where
  "is_navigable_string (Tag name attrs contents) = False"
| "is_navigable_string element = True"

fun is_comment :: "node \<Rightarrow> bool" where
  "is_comment (Comment s) = True"
| "is_comment element = False"

fun is_doctype :: "node \<Rightarrow> bool" where
  "is_doctype (Doctype s) = True"
| "is_doctype element = False"

text \<open>\<open>str(element)\<close> of a string node.\<close>

fun str :: "node \<Rightarrow> string" where
  "str (NavigableString s) = s"
| "str (Comment s) = s"
| "str (Doctype s) = s"
| "str (Tag name attrs contents) = []"

fun contents :: "node \<Rightarrow> node list" where
  "contents (Tag name attrs cs) = cs"
| "contents element = []"

text \<open>\<open>tag.get(attr)\<close> and \<open>tag.has_attr(attr)\<close>\<close>

fun get :: "node \<Rightarrow> string \<Rightarrow> string option" where
  "get (Tag name attrs cs) attr = map_of attrs attr"
| "get element attr = None"

definition has_attr :: "node \<Rightarrow> string \<Rightarrow> bool" where
  "has_attr tag attr = (get tag attr \<noteq> None)"

text \<open>\<open>attrs[key] = value\<close> on the attribute dict: an existing key keeps its place, a new
  one goes to the end.\<close>

fun dict_set :: "(string \<times> string) list \<Rightarrow> string \<Rightarrow> string \<Rightarrow> (string \<times> string) list" where
  "dict_set [] key v = [(key, v)]"
| "dict_set ((k, w) # attrs) key v =
     (if k = key then (key, v) # attrs else (k, w) # dict_set attrs key v)"

text \<open>\<open>soup.descendants\<close>: every node below, parents before their children, siblings in
  order.  Each entry carries the node's path and the name of \<open>element.parent\<close>.\<close>

fun descendants_from :: "path \<Rightarrow> string \<Rightarrow> nat \<Rightarrow> node list \<Rightarrow> (path \<times> string \<times> node) list"
  and descendants_of :: "path \<Rightarrow> node \<Rightarrow> (path \<times> string \<times> node) list" where
  "descendants_from parent parent_name i [] = []"
| "descendants_from parent parent_name i (c # cs) =
     (parent @ [i], parent_name, c) # descendants_of (parent @ [i]) c
       @ descendants_from parent parent_name (Suc i) cs"
| "descendants_of p (Tag name attrs cs) = descendants_from p name 0 cs"
| "descendants_of p (NavigableString s) = []"
| "descendants_of p (Comment s) = []"
| "descendants_of p (Doctype s) = []"

definition descendants :: "soup \<Rightarrow> (path \<times> string \<times> node) list" where
  "descendants soup = descendants_from [] ''[document]'' 0 soup"

text \<open>The node at a path, if the path leads to one.\<close>

fun lookup :: "node list \<Rightarrow> path \<Rightarrow> node option" where
  "lookup ns [] = None"
| "lookup ns (i # p) =
     (if i < length ns
      then (if p = [] then Some (ns ! i) else lookup (contents (ns ! i)) p)
      else None)"

text \<open>Rewriting the node at a path; a path that leads nowhere changes nothing.\<close>

fun set_contents :: "node \<Rightarrow> node list \<Rightarrow> node" where
  "set_contents (Tag name attrs cs) cs' = Tag name attrs cs'"
| "set_contents element cs' = element"

fun update_at :: "node list \<Rightarrow> path \<Rightarrow> (node \<Rightarrow> node) \<Rightarrow> node list" where
  "update_at ns [] f = ns"
| "update_at ns (i # p) f =
     (if i < length ns
      then ns[i := (if p = [] then f (ns ! i)
                    else set_contents (ns ! i) (update_at (contents (ns ! i)) p f))]
      else ns)"

text \<open>\<open>element.decompose()\<close>: the node at the path leaves its parent's contents.\<close>

fun delete_at :: "node list \<Rightarrow> path \<Rightarrow> node list" where
  "delete_at ns [] = ns"
| "delete_at ns (i # p) =
     (if i < length ns
      then (if p = [] then take i ns @ drop (Suc i) ns
            else ns[i := set_contents (ns ! i) (delete_at (contents (ns ! i)) p)])
      else ns)"

text \<open>\<open>tag[attr] = value\<close>, \<open>tag.append(child)\<close> and \<open>tag.insert(0, child)\<close> on the tag
  at a path.\<close>

fun set_attrs :: "string \<Rightarrow> string \<Rightarrow> node \<Rightarrow> node" where
  "set_attrs key v (Tag name attrs cs) = Tag name (dict_set attrs key v) cs"
| "set_attrs key v element = element"

definition set_item :: "soup \<Rightarrow> path \<Rightarrow> string \<Rightarrow> string \<Rightarrow> soup" where
  "set_item soup tag key v = update_at soup tag (set_attrs key v)"

definition append_child :: "soup \<Rightarrow> path \<Rightarrow> node \<Rightarrow> soup" where
  "append_child soup tag child = update_at soup tag (\<lambda>t. set_contents t (contents t @ [child]))"

definition insert_first :: "soup \<Rightarrow> path \<Rightarrow> node \<Rightarrow> soup" where
  "insert_first soup tag child = update_at soup tag (\<lambda>t. set_contents t (child # contents t))"

text \<open>\<open>find\<close>: the first descendant, in document order, that the filter accepts.
  \<open>find_in\<close> searches below the tag at a path (\<open>body.find(...)\<close>).\<close>

fun first_match :: "(node \<Rightarrow> bool) \<Rightarrow> (path \<times> string \<times> node) list \<Rightarrow> path option" where
  "first_match accept [] = None"
| "first_match accept ((p, parent_name, element) # es) =
     (if accept element then Some p else first_match accept es)"

definition find :: "soup \<Rightarrow> (node \<Rightarrow> bool) \<Rightarrow> path option" where
  "find soup accept = first_match accept (descendants soup)"

definition find_in :: "soup \<Rightarrow> path \<Rightarrow> (node \<Rightarrow> bool) \<Rightarrow> path option" where
  "find_in soup tag accept =
     (case lookup soup tag of
        None \<Rightarrow> None
      | Some t \<Rightarrow> first_match accept (descendants_of tag t))"

text \<open>\<open>find_all\<close>: all the tags the filter accepts, in document order.\<close>

definition find_all :: "soup \<Rightarrow> (node \<Rightarrow> bool) \<Rightarrow> (path \<times> node) list" where
  "find_all soup accept =
     map (\<lambda>(p, parent_name, element). (p, element))
       (filter (\<lambda>(p, parent_name, element). \<not> is_navigable_string element \<and> accept element)
          (descendants soup))"

fun name_of :: "node \<Rightarrow> string" where
  "name_of (Tag name attrs cs) = name"
| "name_of element = []"

text \<open>The filter \<open>find('html')\<close>: a tag of that name.\<close>

definition named :: "string \<Rightarrow> node \<Rightarrow> bool" where
  "named name element = (\<not> is_navigable_string element \<and> name_of element = name)"

text \<open>The words of a multi-valued attribute (\<open>rel\<close>), as bs4 splits them at whitespace.\<close>

fun words_from :: "string \<Rightarrow> string \<Rightarrow> string list" where
  "words_from word [] = (if word = [] then [] else [word])"
| "words_from word (c # cs) =
     (if isspace c then (if word = [] then words_from [] cs else word # words_from [] cs)
      else words_from (word @ [c]) cs)"

definition split_words :: "string \<Rightarrow> string list" where
  "split_words v = words_from [] v"

section \<open>Document extractor\<close>

definition EXCLUDED_TAGS :: "string set" where
  "EXCLUDED_TAGS = {''script'', ''style'', ''code'', ''pre'', ''noscript''}"

text \<open>Python iterates the set \<open>TRANSLATE_ATTRS\<close> in an order of its own choosing, the same
  throughout one run; the model takes the order in which the source writes the set.\<close>

definition TRANSLATE_ATTRS :: "string list" where
  "TRANSLATE_ATTRS = [''title'', ''alt'', ''aria-label'', ''placeholder'']"

definition META_DESC_SELECTORS :: "(string \<times> string) list" where
  "META_DESC_SELECTORS = [(''name'', ''description''), (''property'', ''og:description'')]"

text \<open>The loop of \<open>extract_text_nodes\<close> over \<open>soup.descendants\<close> (lines 178-187).  A
  node object of the result is its path together with the node found there.\<close>

fun extract_text_loop :: "(path \<times> string \<times> node) list \<Rightarrow> (path \<times> node) list" where
  "extract_text_loop [] = []"
| "extract_text_loop ((p, parent_name, element) # es) =
     (if is_navigable_string element then
        (if is_comment element then extract_text_loop es
         else if parent_name \<noteq> [] \<and> lower parent_name \<in> EXCLUDED_TAGS then extract_text_loop es
         else if strip (str element) \<noteq> [] then (p, element) # extract_text_loop es
         else extract_text_loop es)
      else extract_text_loop es)"

definition extract_text_nodes :: "soup \<Rightarrow> (path \<times> node) list" where
  "extract_text_nodes soup = extract_text_loop (descendants soup)"

text \<open>\<open>extract_meta_descriptions\<close>: for each selector, the \<open>meta\<close> tags whose attribute
  has the selector's value, with their non-blank \<open>content\<close>.\<close>

definition meta_matches :: "string \<Rightarrow> string \<Rightarrow> node \<Rightarrow> bool" where
  "meta_matches attr v tag = (name_of tag = ''meta'' \<and> get tag attr = Some v)"

fun metas_of_tags :: "(path \<times> node) list \<Rightarrow> (string \<times> path) list" where
  "metas_of_tags [] = []"
| "metas_of_tags ((p, tag) # tags) =
     (case get tag ''content'' of
        Some content \<Rightarrow>
          (if content \<noteq> [] \<and> strip content \<noteq> [] then (content, p) # metas_of_tags tags
           else metas_of_tags tags)
      | None \<Rightarrow> metas_of_tags tags)"

definition extract_meta_descriptions :: "soup \<Rightarrow> (string \<times> path) list" where
  "extract_meta_descriptions soup =
     concat (map (\<lambda>(attr, v). metas_of_tags (find_all soup (meta_matches attr v)))
       META_DESC_SELECTORS)"

text \<open>\<open>extract_attr_texts\<close>: for each tag outside \<open>EXCLUDED_TAGS\<close>, its non-blank
  translatable attributes.\<close>

fun attrs_of_tag :: "path \<Rightarrow> node \<Rightarrow> string list \<Rightarrow> (string \<times> path \<times> string) list" where
  "attrs_of_tag p tag [] = []"
| "attrs_of_tag p tag (attr # more_attrs) =
     (if has_attr tag attr then
        (case get tag attr of
           Some val \<Rightarrow>
             (if strip val \<noteq> [] then (val, p, attr) # attrs_of_tag p tag more_attrs
              else attrs_of_tag p tag more_attrs)
         | None \<Rightarrow> attrs_of_tag p tag more_attrs)
      else attrs_of_tag p tag more_attrs)"

fun attrs_of_tags :: "(path \<times> node) list \<Rightarrow> (string \<times> path \<times> string) list" where
  "attrs_of_tags [] = []"
| "attrs_of_tags ((p, tag) # tags) =
     (if lower (name_of tag) \<in> EXCLUDED_TAGS then attrs_of_tags tags
      else attrs_of_tag p tag TRANSLATE_ATTRS @ attrs_of_tags tags)"

definition extract_attr_texts :: "soup \<Rightarrow> (string \<times> path \<times> string) list" where
  "extract_attr_texts soup = attrs_of_tags (find_all soup (\<lambda>tag. True))"

text \<open>\<open>collect_texts_for_translation\<close>\<close>

definition collect_texts_for_translation ::
  "regex_sub \<Rightarrow> soup \<Rightarrow> glossary_rule list \<Rightarrow>
   (path \<times> node) list \<times> string list \<times> (string \<times> path \<times> string) list \<times> string list
     \<times> (string \<times> path) list \<times> string list" where
  "collect_texts_for_translation re_sub soup glossary =
     (let nodes = extract_text_nodes soup;
          node_texts = map (\<lambda>(p, n). apply_pre_glossary re_sub (str n) glossary) nodes;
          attr_items = extract_attr_texts soup;
          attr_texts = map (\<lambda>(t, tag, a). apply_pre_glossary re_sub t glossary) attr_items;
          meta_items = extract_meta_descriptions soup;
          meta_texts = map (\<lambda>(t, tag). apply_pre_glossary re_sub t glossary) meta_items
      in (nodes, node_texts, attr_items, attr_texts, meta_items, meta_texts))"

section \<open>Reinsertion engine\<close>

text \<open>\<open>node.replace_with(text)\<close>: a new plain string takes the node's place in its parent;
  bs4 raises \<open>ValueError\<close> for a node that is not part of a tree.\<close>

definition replace_with :: "soup \<Rightarrow> path \<Rightarrow> string \<Rightarrow> exn + soup" where
  "replace_with soup p text =
     (case lookup soup p of
        None \<Rightarrow> Inl ValueError
      | Some element \<Rightarrow> Inr (update_at soup p (\<lambda>old. NavigableString text)))"

text \<open>The three loops of \<open>replace_in_html\<close>, each over a \<open>zip\<close>.\<close>

fun replace_nodes :: "soup \<Rightarrow> ((path \<times> node) \<times> string option) list \<Rightarrow> exn + soup" where
  "replace_nodes soup [] = Inr soup"
| "replace_nodes soup (((p, node), new_text) # pairs) =
     (let safe_text = (case new_text of Some t \<Rightarrow> t | None \<Rightarrow> [])
      in case replace_with soup p safe_text of
           Inl e \<Rightarrow> Inl e
         | Inr soup' \<Rightarrow> replace_nodes soup' pairs)"

fun replace_attrs :: "soup \<Rightarrow> ((string \<times> path \<times> string) \<times> string option) list \<Rightarrow> soup" where
  "replace_attrs soup [] = soup"
| "replace_attrs soup (((old, tag, attr), new_text) # pairs) =
     replace_attrs (set_item soup tag attr (case new_text of Some t \<Rightarrow> t | None \<Rightarrow> [])) pairs"

fun replace_metas :: "soup \<Rightarrow> ((string \<times> path) \<times> string option) list \<Rightarrow> soup" where
  "replace_metas soup [] = soup"
| "replace_metas soup (((old, tag), new_text) # pairs) =
     replace_metas (set_item soup tag ''content'' (case new_text of Some t \<Rightarrow> t | None \<Rightarrow> [])) pairs"

definition replace_in_html ::
  "soup \<Rightarrow> (path \<times> node) list \<Rightarrow> string option list \<Rightarrow>
   (string \<times> path \<times> string) list \<Rightarrow> string option list \<Rightarrow>
   (string \<times> path) list \<Rightarrow> string option list \<Rightarrow> exn + soup" where
  "replace_in_html soup nodes node_texts attr_items attr_texts meta_items meta_texts =
     (case replace_nodes soup (zip nodes node_texts) of
        Inl e \<Rightarrow> Inl e
      | Inr soup1 \<Rightarrow>
          Inr (replace_metas (replace_attrs soup1 (zip attr_items attr_texts))
                 (zip meta_items meta_texts)))"

section \<open>Locale annotator\<close>

text \<open>The tag \<open>soup.new_tag('link', rel='alternate', hreflang=..., href=...)\<close> that
  \<open>set_lang_and_hreflang\<close> appends to the head (lines 255-267).\<close>

definition alternate_link :: "string \<Rightarrow> bool \<Rightarrow> node" where
  "alternate_link rel_path is_uz_page =
     (if is_uz_page then
        (let depth = py_count rel_path ''/'';
             up_levels = py_mul ''../'' (depth + 1)
         in Tag ''link'' [(''rel'', ''alternate''), (''hreflang'', ''ru''),
                          (''href'', up_levels @ rel_path)] [])
      else
        (let depth = py_count rel_path ''/'';
             up_levels = (if depth > 0 then py_mul ''../'' depth else [])
         in Tag ''link'' [(''rel'', ''alternate''), (''hreflang'', ''uz''),
                          (''href'', up_levels @ ''uz/'' @ rel_path)] []))"

definition set_lang_and_hreflang :: "soup \<Rightarrow> string \<Rightarrow> bool \<Rightarrow> soup" where
  "set_lang_and_hreflang soup rel_path is_uz_page =
     (case (case find soup (named ''html'') of
              Some html_tag \<Rightarrow> (soup, html_tag)
            | None \<Rightarrow>
                (let body = Tag ''body'' [] (filter (\<lambda>child. \<not> is_doctype child) soup);
                     kept = filter is_doctype soup
                 in (kept @ [Tag ''html'' [] [body]], [length kept])))
      of (soup1, html_tag) \<Rightarrow>
       (let lang = (if is_uz_page then ''uz''
                    else (case lookup soup1 html_tag of
                            Some t \<Rightarrow> (case get t ''lang'' of
                                         Some v \<Rightarrow> if v \<noteq> [] then v else ''ru''
                                       | None \<Rightarrow> ''ru'')
                          | None \<Rightarrow> ''ru''));
            soup2 = set_item soup1 html_tag ''lang'' lang
        in case (case find soup2 (named ''head'') of
                   Some head \<Rightarrow> (soup2, head)
                 | None \<Rightarrow> (insert_first soup2 html_tag (Tag ''head'' [] []), html_tag @ [0]))
           of (soup3, head) \<Rightarrow> append_child soup3 head (alternate_link rel_path is_uz_page)))"

text \<open>The labels of the switch: \<open>'Russkij'\<close> in Cyrillic (its UTF-8 bytes) and
  \<open>"O'zbekcha"\<close>.\<close>

definition label_ru :: string where
  "label_ru = map char_of [208, 160, 209, 131, 209, 129, 209, 129, 208, 186, 208, 184, 208, 185 :: nat]"

definition label_uz :: string where
  "label_uz = ''O'' @ [char_of (39 :: nat)] @ ''zbekcha''"

definition switcher_style :: string where
  "switcher_style = ''position:fixed;bottom:12px;right:12px;z-index:9999;font-family:inherit;font-size:13px;background:#fff;border:1px solid #ddd;border-radius:6px;padding:6px 10px;box-shadow:0 2px 8px rgba(0,0,0,0.08)''"

definition switcher :: "string \<Rightarrow> bool \<Rightarrow> node" where
  "switcher rel_path is_uz_page =
     (let link =
        (if is_uz_page then
           (let depth = py_count rel_path ''/'';
                up_levels = py_mul ''../'' (depth + 1)
            in Tag ''a'' [(''href'', up_levels @ rel_path), (''hreflang'', ''ru'')]
                 [NavigableString label_ru])
         else
           (let depth = py_count rel_path ''/'';
                up_levels = (if depth > 0 then py_mul ''../'' depth else [])
            in Tag ''a'' [(''href'', up_levels @ ''uz/'' @ rel_path), (''hreflang'', ''uz'')]
                 [NavigableString label_uz]))
      in Tag ''div'' [(''style'', switcher_style)] [link])"

definition inject_language_switcher :: "soup \<Rightarrow> string \<Rightarrow> bool \<Rightarrow> soup" where
  "inject_language_switcher soup rel_path is_uz_page =
     (case find soup (named ''body'') of
        None \<Rightarrow> soup
      | Some body \<Rightarrow> append_child soup body (switcher rel_path is_uz_page))"

text \<open>The filters of \<open>process_russian_html_file\<close>:
  \<open>body.find('div', style=lambda x: x and 'position:fixed' in x and 'bottom:12px' in x)\<close> and
  \<open>head.find('link', rel='alternate', hreflang='uz')\<close>; \<open>rel\<close> is multi-valued, and a
  value matches when one of its words does.\<close>

definition is_switcher :: "node \<Rightarrow> bool" where
  "is_switcher element =
     (named ''div'' element \<and>
      (case get element ''style'' of
         None \<Rightarrow> False
       | Some x \<Rightarrow> x \<noteq> [] \<and> contains x ''position:fixed'' \<and> contains x ''bottom:12px''))"

definition is_alternate :: "string \<Rightarrow> node \<Rightarrow> bool" where
  "is_alternate hreflang element =
     (named ''link'' element \<and>
      (case get element ''rel'' of None \<Rightarrow> False | Some v \<Rightarrow> ''alternate'' \<in> set (split_words v)) \<and>
      get element ''hreflang'' = Some hreflang)"

text \<open>\<open>process_russian_html_file\<close> between parsing and serialising (lines 356-372): the
  source-annotation role.\<close>

definition process_russian_html_file :: "soup \<Rightarrow> string \<Rightarrow> soup" where
  "process_russian_html_file soup rel_path =
     (let soup1 =
        (case find soup (named ''body'') of
           None \<Rightarrow> soup
         | Some body \<Rightarrow>
             (case find_in soup body is_switcher of
                None \<Rightarrow> soup
              | Some existing_switcher \<Rightarrow> delete_at soup existing_switcher));
          soup2 =
        (case find soup1 (named ''head'') of
           None \<Rightarrow> soup1
         | Some head \<Rightarrow>
             (case find_in soup1 head (is_alternate ''uz'') of
                None \<Rightarrow> soup1
              | Some existing_hreflang \<Rightarrow> delete_at soup1 existing_hreflang))
      in inject_language_switcher (set_lang_and_hreflang soup2 rel_path False) rel_path False)"

text \<open>\<open>process_html_file\<close> between parsing and serialising (lines 410-422): the
  translated-output role.  The result is the document written to the output tree, with
  the cache and the service as the run leaves them.\<close>

definition process_html_file ::
  "regex_sub \<Rightarrow> translator \<Rightarrow> 's service \<Rightarrow> soup \<Rightarrow> string \<Rightarrow> cache_store \<Rightarrow>
   glossary_rule list \<Rightarrow> 's \<Rightarrow> ((exn + soup) \<times> cache_store \<times> 's) option" where
  "process_html_file re_sub tr svc soup rel_path cache glossary s =
     (case collect_texts_for_translation re_sub soup glossary of
        (nodes, node_texts, attr_items, attr_texts, meta_items, meta_texts) \<Rightarrow>
          (let all_texts = node_texts @ attr_texts @ meta_texts
           in case translate_unique tr svc all_texts cache glossary s of
                None \<Rightarrow> None
              | Some (Inl e, cache', s') \<Rightarrow> Some (Inl e, cache', s')
              | Some (Inr mapping, cache', s') \<Rightarrow>
                  (let new_node_texts = replace_texts node_texts mapping;
                       new_attr_texts = replace_texts attr_texts mapping;
                       new_meta_texts = replace_texts meta_texts mapping
                   in case replace_in_html soup nodes new_node_texts attr_items new_attr_texts
                             meta_items new_meta_texts of
                        Inl e \<Rightarrow> Some (Inl e, cache', s')
                      | Inr soup1 \<Rightarrow>
                          Some (Inr (inject_language_switcher
                                       (set_lang_and_hreflang soup1 rel_path True) rel_path True),
                                cache', s'))))"

section \<open>Notions used in the statements\<close>

text \<open>The cumulative character count of a batch.\<close>

definition total_chars :: "string list \<Rightarrow> int" where
  "total_chars batch = sum_list (map (\<lambda>t. int (length t)) batch)"

text \<open>What the partition asks of one batch.\<close>

definition batch_ok :: "translator \<Rightarrow> string list \<Rightarrow> bool" where
  "batch_ok tr b = (b \<noteq> [] \<and> int (length b) \<le> batch_size tr \<and>
     (max_chars tr < total_chars b \<longrightarrow> length b = 1))"



text \<open>The node at a path together with the name of its parent (\<open>element.parent.name\<close>).\<close>

fun lookup_with_parent :: "string \<Rightarrow> node list \<Rightarrow> path \<Rightarrow> (string \<times> node) option" where
  "lookup_with_parent parent_name ns [] = None"
| "lookup_with_parent parent_name ns (i # p) =
     (if i < length ns
      then (if p = [] then Some (parent_name, ns ! i)
            else lookup_with_parent (name_of (ns ! i)) (contents (ns ! i)) p)
      else None)"

text \<open>The test that the loop of \<open>extract_text_nodes\<close> applies to an entry of
  \<open>soup.descendants\<close>.\<close>

definition keeps :: "(path \<times> string \<times> node) \<Rightarrow> bool" where
  "keeps e = (case e of (p, parent_name, element) \<Rightarrow>
      is_navigable_string element \<and> \<not> is_comment element \<and>
      lower parent_name \<notin> EXCLUDED_TAGS \<and> strip (str element) \<noteq> [])"

text \<open>\<open>new_text if new_text is not None else ''\<close>\<close>

definition safe_text :: "string option \<Rightarrow> string" where
  "safe_text new_text = (case new_text of Some t \<Rightarrow> t | None \<Rightarrow> [])"

text \<open>The value of an attribute of the tag at a path, and whether a path leads to a tag.\<close>

definition attr_at :: "soup \<Rightarrow> path \<Rightarrow> string \<Rightarrow> string option" where
  "attr_at soup tag attr = (case lookup soup tag of Some t \<Rightarrow> get t attr | None \<Rightarrow> None)"

definition is_tag_at :: "soup \<Rightarrow> path \<Rightarrow> bool" where
  "is_tag_at soup p = (case lookup soup p of Some t \<Rightarrow> \<not> is_navigable_string t | None \<Rightarrow> False)"

text \<open>A sequence of assignments \<open>tag[key] = v\<close>, in order.\<close>

definition apply_writes :: "soup \<Rightarrow> (path \<times> string \<times> string) list \<Rightarrow> soup" where
  "apply_writes soup ws = foldl (\<lambda>s (tag, key, v). set_item s tag key v) soup ws"

text \<open>Counting the injected elements of a document.\<close>

definition count_nodes :: "(node \<Rightarrow> bool) \<Rightarrow> soup \<Rightarrow> nat" where
  "count_nodes accept soup =
     length (filter (\<lambda>(p, parent_name, element). accept element) (descendants soup))"


text \<open>The document a run of \<open>process_html_file\<close> writes (empty when the run fails).\<close>

definition written :: "((exn + soup) \<times> cache_store \<times> 's) option \<Rightarrow> soup" where
  "written result = (case result of Some (Inr soup, cache, s) \<Rightarrow> soup | _ \<Rightarrow> [])"

section \<open>Sample inputs\<close>

text \<open>The translator with the constructor's default limits.\<close>

definition default_translator :: translator where
  "default_translator = \<lparr>batch_size = 80, max_chars = 9000, rpm = 300\<rparr>"

text \<open>A service that answers every request at once, returns the texts as they came and
  keeps the list of the batches it was sent.\<close>

definition echo_service :: "string list list service" where
  "echo_service log batch = (Reply_OK batch, log @ [batch])"

text \<open>Services that count the requests they receive: one that always answers 429, one
  that always fails, one that translates every text to the empty string, and one that
  answers 429 six times and translates from then on.\<close>

definition counting_429 :: "nat service" where
  "counting_429 n batch = (Reply_429, Suc n)"

definition counting_error :: "nat service" where
  "counting_error n batch = (Reply_Error, Suc n)"


definition limited_then_ok :: "nat service" where
  "limited_then_ok n batch =
     (if n < 6 then (Reply_429, Suc n) else (Reply_OK (map (\<lambda>t. ''uz:'' @ t) batch), Suc n))"

text \<open>A \<open>re.sub\<close> that rejects every pattern, and small documents.\<close>

definition no_regex :: regex_sub where
  "no_regex pattern repl text = None"



definition two_runs :: soup where
  "two_runs = [Tag ''p'' [] [NavigableString ''a''], Tag ''p'' [] [NavigableString ''b'']]"

definition sample_doc :: soup where
  "sample_doc =
     [Tag ''html'' []
        [Tag ''head'' [] [Tag ''meta'' [(''name'', ''description''), (''content'', ''d'')] []],
         Tag ''body'' [] [Tag ''p'' [(''title'', ''t'')] [NavigableString ''a''], NavigableString ''b'']]]"


definition double_meta :: soup where
  "double_meta =
     [Tag ''meta'' [(''name'', ''description''), (''property'', ''og:description''),
                    (''content'', ''d'')] []]"

definition bare_page :: soup where
  "bare_page = [Tag ''html'' [] [Tag ''head'' [] [], Tag ''body'' [] [Tag ''p'' [] [NavigableString ''a'']]]]"

declare call_with_retries.simps [simp del]

section \<open>The translation client: batches and retries\<close>

lemma total_chars_snoc: "total_chars (b @ [t]) = total_chars b + int (length t)"
  by (simp add: total_chars_def)

lemma build_batch_props:
  "build_batch tr batch n rest = (b, rest') \<Longrightarrow> n = total_chars batch \<Longrightarrow>
   0 < batch_size tr \<Longrightarrow>
   int (length batch) \<le> batch_size tr \<Longrightarrow>
   (max_chars tr < total_chars batch \<longrightarrow> length batch \<le> 1) \<Longrightarrow>
   b @ rest' = batch @ rest \<and> int (length b) \<le> batch_size tr \<and>
   (max_chars tr < total_chars b \<longrightarrow> length b \<le> 1) \<and>
   (batch \<noteq> [] \<or> rest \<noteq> [] \<longrightarrow> b \<noteq> [])"
proof (induction tr batch n rest arbitrary: b rest' rule: build_batch.induct)
  case (1 tr batch batch_chars)
  then show ?case by auto
next
  case (2 tr batch batch_chars next_text rest)
  show ?case
  proof (cases "int (length batch) < batch_size tr")
    case False
    with "2.prems" show ?thesis by auto
  next
    case lt: True
    show ?thesis
    proof (cases "batch_chars + int (length next_text) > max_chars tr \<and> batch \<noteq> []")
      case True
      with lt "2.prems" show ?thesis by auto
    next
      case False
      have step: "build_batch tr (batch @ [next_text]) (batch_chars + int (length next_text)) rest
          = (b, rest')"
        using "2.prems"(1) lt False by simp
      have n': "batch_chars + int (length next_text) = total_chars (batch @ [next_text])"
        using "2.prems"(2) by (simp add: total_chars_snoc)
      have len': "int (length (batch @ [next_text])) \<le> batch_size tr" using lt by simp
      have ch': "max_chars tr < total_chars (batch @ [next_text])
          \<longrightarrow> length (batch @ [next_text]) \<le> 1"
        using False "2.prems"(2) by (auto simp: total_chars_snoc)
      from "2.IH"[OF lt False step n' "2.prems"(3) len' ch']
      show ?thesis by auto
    qed
  qed
qed

lemma build_batch_first:
  assumes "build_batch tr [] 0 rest = (b, rest')" "0 < batch_size tr" "rest \<noteq> []"
  shows "b @ rest' = rest \<and> batch_ok tr b"
proof -
  have z: "(0::int) = total_chars []" by (simp add: total_chars_def)
  have l: "int (length ([]::string list)) \<le> batch_size tr" using assms(2) by simp
  have c: "max_chars tr < total_chars [] \<longrightarrow> length ([]::string list) \<le> 1" by simp
  from build_batch_props[OF assms(1) z assms(2) l c] assms(3)
  have "b @ rest' = rest" "int (length b) \<le> batch_size tr"
    "max_chars tr < total_chars b \<longrightarrow> length b \<le> 1" "b \<noteq> []" by auto
  then show ?thesis
    by (cases b) (auto simp: batch_ok_def)
qed

lemma call_echo:
  "call_with_retries echo_service batch 0 log = (Inr (Some batch), log @ [batch])"
  by (subst call_with_retries.simps) (simp add: translate_batch_def echo_service_def)

lemma translate_loop_echo:
  "0 < batch_size tr \<Longrightarrow>
   \<exists>bs. translate_loop tr echo_service rest results used log
           = Some (Inr (results @ rest), log @ bs) \<and>
        concat bs = rest \<and> (\<forall>b\<in>set bs. batch_ok tr b)"
proof (induction "length rest" arbitrary: rest results used log rule: less_induct)
  case less
  show ?case
  proof (cases "rest = []")
    case True
    then show ?thesis by (subst translate_loop.simps) simp
  next
    case False
    obtain b rest' where bb: "build_batch tr [] 0 rest = (b, rest')"
      by (cases "build_batch tr [] 0 rest")
    from build_batch_first[OF bb less.prems False]
    have split: "b @ rest' = rest" and ok: "batch_ok tr b" by auto
    then have "length rest' < length rest" by (auto simp: batch_ok_def)
    from less.hyps[OF this less.prems, of "results @ b"
        "(if rpm tr \<le> used then 0 else used) + 1" "log @ [b]"]
    obtain bs where bs:
      "translate_loop tr echo_service rest' (results @ b)
         ((if rpm tr \<le> used then 0 else used) + 1) (log @ [b])
        = Some (Inr ((results @ b) @ rest'), (log @ [b]) @ bs)"
      "concat bs = rest'" "\<forall>b\<in>set bs. batch_ok tr b"
      by blast
    have "translate_loop tr echo_service rest results used log
        = Some (Inr (results @ rest), log @ (b # bs))"
      apply (subst translate_loop.simps)
      using False bb bs(1) split by (simp add: call_echo)
    moreover have "concat (b # bs) = rest" using bs(2) split by simp
    moreover have "\<forall>x\<in>set (b # bs). batch_ok tr x" using bs(3) ok by simp
    ultimately show ?thesis by blast
  qed
qed

text \<open>
  When every batch gets through within its six attempts and the service answers a batch
  with one translation \<open>f t\<close> per text \<open>t\<close>, \<open>translate\<close> returns the translations of
  the input, in the input's order.
\<close>

lemma translate_loop_answered:
  assumes ok: "\<And>s b. \<exists>s'. call_with_retries svc b 0 s = (Inr (Some (map f b)), s')"
    and pos: "0 < batch_size tr"
  shows "\<exists>s'. translate_loop tr svc rest results used s
           = Some (Inr (results @ map f rest), s')"
proof (induction "length rest" arbitrary: rest results used s rule: less_induct)
  case less
  show ?case
  proof (cases "rest = []")
    case True
    then show ?thesis by (subst translate_loop.simps) simp
  next
    case False
    obtain b rest' where bb: "build_batch tr [] 0 rest = (b, rest')"
      by (cases "build_batch tr [] 0 rest")
    from build_batch_first[OF bb pos False]
    have split: "b @ rest' = rest" and okb: "batch_ok tr b" by auto
    then have lt: "length rest' < length rest" by (auto simp: batch_ok_def)
    obtain s1 where s1: "call_with_retries svc b 0 s = (Inr (Some (map f b)), s1)"
      using ok by blast
    from less[OF lt, of "results @ map f b" "(if rpm tr \<le> used then 0 else used) + 1" s1]
    obtain s' where s':
      "translate_loop tr svc rest' (results @ map f b)
         ((if rpm tr \<le> used then 0 else used) + 1) s1
        = Some (Inr ((results @ map f b) @ map f rest'), s')" by blast
    have "map f rest = map f b @ map f rest'" using split by (metis map_append)
    then have "translate_loop tr svc rest results used s
        = Some (Inr (results @ map f rest), s')"
      apply (subst translate_loop.simps)
      using False bb s' s1 by simp
    then show ?thesis by blast
  qed
qed

lemma translate_answered:
  assumes "\<And>s b. \<exists>s'. call_with_retries svc b 0 s = (Inr (Some (map f b)), s')"
    and "0 < batch_size tr"
  shows "\<exists>s'. translate tr svc texts s = Some (Inr (map f texts), s')"
  using translate_loop_answered[OF assms, of texts "[]" 0 s] by (simp add: translate_def)

text \<open>
  With an item-count limit below 1 the inner loop takes no text, so for a non-empty input
  \<open>translate\<close> never returns a result: it raises or runs for ever.
\<close>

lemma build_batch_nonpositive:
  "batch_size tr \<le> 0 \<Longrightarrow> build_batch tr batch n rest = (batch, rest)"
  by (cases rest) auto

lemma translate_loop_nonpositive_limit:
  assumes run: "translate_loop tr svc rest results used s = Some y"
  shows "batch_size tr \<le> 0 \<longrightarrow> rest \<noteq> [] \<longrightarrow> (\<exists>e s'. y = (Inl e, s'))"
proof (rule translate_loop.raw_induct[where
      P = "\<lambda>tr svc rest results used s y.
             batch_size tr \<le> 0 \<longrightarrow> rest \<noteq> [] \<longrightarrow> (\<exists>e s'. y = (Inl e, s'))", OF _ run])
  fix loop :: "translator \<Rightarrow> 'a service \<Rightarrow> string list \<Rightarrow> string list \<Rightarrow> int \<Rightarrow> 'a
      \<Rightarrow> ((exn + string list) \<times> 'a) option"
  fix tr svc rest results requests_used s tra
  assume IH: "\<And>tr svc rest results requests_used s y.
        loop tr svc rest results requests_used s = Some y \<Longrightarrow>
        batch_size tr \<le> 0 \<longrightarrow> rest \<noteq> [] \<longrightarrow> (\<exists>e s'. y = (Inl e, s'))"
    and body: "(if rest \<noteq> []
      then case build_batch tr [] 0 rest of
           (batch, rest') \<Rightarrow>
             case call_with_retries svc batch 0 s of
             (Inl e, s') \<Rightarrow> Some (Inl e, s')
             | (Inr None, s') \<Rightarrow>
                 loop tr svc rest' results
                  (if rpm tr \<le> requests_used then 0 else requests_used) s'
             | (Inr (Some translated), s') \<Rightarrow>
                 loop tr svc rest' (results @ translated)
                  ((if rpm tr \<le> requests_used then 0 else requests_used) + 1) s'
      else Some (Inr results, s)) = Some tra"
  show "batch_size tr \<le> 0 \<longrightarrow> rest \<noteq> [] \<longrightarrow> (\<exists>e s'. tra = (Inl e, s'))"
  proof (intro impI)
    assume b: "batch_size tr \<le> 0" and r: "rest \<noteq> []"
    obtain out s1 where c: "call_with_retries svc [] 0 s = (out, s1)"
      by (cases "call_with_retries svc [] 0 s")
    show "\<exists>e s'. tra = (Inl e, s')"
    proof (cases out)
      case (Inl e)
      then show ?thesis using body b r c by (auto simp: build_batch_nonpositive)
    next
      case (Inr opt)
      show ?thesis
      proof (cases opt)
        case None
        then have "loop tr svc rest results
            (if rpm tr \<le> requests_used then 0 else requests_used) s1 = Some tra"
          using body b r c Inr by (simp add: build_batch_nonpositive)
        from IH[OF this] b r show ?thesis by blast
      next
        case (Some translated)
        then have "loop tr svc rest (results @ translated)
            ((if rpm tr \<le> requests_used then 0 else requests_used) + 1) s1 = Some tra"
          using body b r c Inr by (simp add: build_batch_nonpositive)
        from IH[OF this] b r show ?thesis by blast
      qed
    qed
  qed
qed

lemma translate_nonpositive_limit:
  "batch_size tr \<le> 0 \<Longrightarrow> texts \<noteq> [] \<Longrightarrow> translate tr svc texts s \<noteq> Some (Inr results, s')"
  using translate_loop_nonpositive_limit[of tr svc texts "[]" 0 s "(Inr results, s')"]
  by (auto simp: translate_def)

text \<open>
  The two handlers of the retry loop, on services that never answer: six 429 answers end
  the loop without a result and without an exception, so \<open>translate\<close> returns the empty
  list for any input; six failures raise \<open>RequestException\<close> at the first batch.
\<close>

lemma call_always_429:
  "k \<le> 6 \<Longrightarrow> call_with_retries counting_429 batch k n = (Inr None, n + (6 - k))"
proof (induction "6 - k" arbitrary: k n)
  case 0
  then have "k = 6" by simp
  then show ?case by (subst call_with_retries.simps) simp
next
  case (Suc d)
  then have k: "k < 6" "d = 6 - (k + 1)" "k + 1 \<le> 6" by auto
  from Suc.hyps(1)[OF k(2,3), of "Suc n"] k(1)
  show ?case
    by (subst call_with_retries.simps) (simp add: translate_batch_def counting_429_def)
qed

lemma call_always_error:
  "k < 6 \<Longrightarrow> call_with_retries counting_error batch k n = (Inl RequestException, n + (6 - k))"
proof (induction "6 - k" arbitrary: k n)
  case 0
  then show ?case by simp
next
  case (Suc d)
  show ?case
  proof (cases "k = 5")
    case True
    then show ?thesis
      by (subst call_with_retries.simps) (simp add: translate_batch_def counting_error_def)
  next
    case False
    then have k: "d = 6 - (k + 1)" "k + 1 < 6" using Suc by auto
    from Suc.hyps(1)[OF k, of "Suc n"] Suc.prems False
    show ?thesis
      by (subst call_with_retries.simps) (simp add: translate_batch_def counting_error_def)
  qed
qed

lemma translate_loop_always_429:
  "0 < batch_size tr \<Longrightarrow>
   \<exists>n'. translate_loop tr counting_429 rest results used n = Some (Inr results, n')"
proof (induction "length rest" arbitrary: rest used n rule: less_induct)
  case less
  show ?case
  proof (cases "rest = []")
    case True
    then show ?thesis by (subst translate_loop.simps) simp
  next
    case False
    obtain b rest' where bb: "build_batch tr [] 0 rest = (b, rest')"
      by (cases "build_batch tr [] 0 rest")
    from build_batch_first[OF bb less.prems False]
    have "b @ rest' = rest" "b \<noteq> []" by (auto simp: batch_ok_def)
    then have "length rest' < length rest" by auto
    from less.hyps[OF this less.prems, of "if rpm tr \<le> used then 0 else used" "n + 6"]
    obtain n' where "translate_loop tr counting_429 rest' results
        (if rpm tr \<le> used then 0 else used) (n + 6) = Some (Inr results, n')" by blast
    then have "translate_loop tr counting_429 rest results used n = Some (Inr results, n')"
      apply (subst translate_loop.simps)
      using False bb call_always_429[of 0 b n] by simp
    then show ?thesis by blast
  qed
qed

lemma translate_always_429:
  "0 < batch_size tr \<Longrightarrow> \<exists>n'. translate tr counting_429 texts n = Some (Inr [], n')"
  using translate_loop_always_429[of tr texts "[]" 0 n] by (simp add: translate_def)

lemma translate_always_error:
  "texts \<noteq> [] \<Longrightarrow> translate tr counting_error texts n = Some (Inl RequestException, n + 6)"
proof -
  assume t: "texts \<noteq> []"
  obtain b rest' where bb: "build_batch tr [] 0 texts = (b, rest')"
    by (cases "build_batch tr [] 0 texts")
  show ?thesis
    unfolding translate_def
    apply (subst translate_loop.simps)
    using t bb call_always_error[of 0 b n] by simp
qed

text \<open>
  C1 (the code breaks the claim).  With one text per batch and a service that answers the
  first six requests with 429 and translates from the seventh on, \<open>translate\<close> of two
  texts returns one translation: the first batch is given up without an error, and the
  translation of the second text stands where the first text's should.
\<close>

theorem translate_drops_rate_limited_batch:
  "translate \<lparr>batch_size = 1, max_chars = 9000, rpm = 300\<rparr> limited_then_ok [''a'', ''b''] 0
     = Some (Inr [''uz:b''], 7)"
  by code_simp

text \<open>
  C2 (the code breaks the claim).  Six 429 answers in a row end the attempts of a batch
  without raising: \<open>translate\<close> returns normally, with no translation for the text of that
  batch.  Six transport failures in a row do raise \<open>RequestException\<close>.
\<close>

theorem translate_rate_limit_exhaustion_is_silent:
  "translate default_translator counting_429 [''a''] 0
     = Some (Inr [], 6) \<and>
   translate default_translator counting_error [''a''] 0
     = Some (Inl RequestException, 6)"
  by code_simp

text \<open>
  C5.  For a positive item-count limit, \<open>translate\<close> returns, and the batches it sends (as
  a service that answers every request at once receives them) are non-empty, hold at most
  \<open>batch_size\<close> texts, exceed \<open>max_chars\<close> characters only when they are a single text,
  and concatenate to the input.
\<close>

theorem translate_batches_partition:
  "0 < batch_size tr \<Longrightarrow>
   \<exists>batches. translate tr echo_service texts [] = Some (Inr texts, batches) \<and>
     concat batches = texts \<and>
     (\<forall>b\<in>set batches. b \<noteq> [] \<and> int (length b) \<le> batch_size tr \<and>
        (max_chars tr < total_chars b \<longrightarrow> length b = 1))"
  using translate_loop_echo[of tr texts "[]" 0 "[]"]
  by (simp add: translate_def batch_ok_def)

theorem translate_batches_partition_witness:
  "(0::int) < batch_size \<lparr>batch_size = 2, max_chars = 5, rpm = 300\<rparr> \<and>
   translate \<lparr>batch_size = 2, max_chars = 5, rpm = 300\<rparr> echo_service
       [''ab'', ''cdefgh'', ''i'', ''j'', ''k''] []
     = Some (Inr [''ab'', ''cdefgh'', ''i'', ''j'', ''k''],
             [[''ab''], [''cdefgh''], [''i'', ''j''], [''k'']]) \<and>
   (\<exists>batches. translate \<lparr>batch_size = 2, max_chars = 5, rpm = 300\<rparr> echo_service
       [''ab'', ''cdefgh'', ''i'', ''j'', ''k''] []
         = Some (Inr [''ab'', ''cdefgh'', ''i'', ''j'', ''k''], batches) \<and>
       concat batches = [''ab'', ''cdefgh'', ''i'', ''j'', ''k''] \<and>
       list_all (\<lambda>b. b \<noteq> [] \<and> int (length b) \<le> 2 \<and> (5 < total_chars b \<longrightarrow> length b = 1))
         batches)"
proof -
  let ?tr = "\<lparr>batch_size = 2, max_chars = 5, rpm = 300\<rparr>"
  let ?texts = "[''ab'', ''cdefgh'', ''i'', ''j'', ''k'']"
  have pos: "(0::int) < batch_size ?tr" by simp
  have run: "translate ?tr echo_service ?texts []
     = Some (Inr ?texts, [[''ab''], [''cdefgh''], [''i'', ''j''], [''k'']])"
    by code_simp
  from translate_batches_partition[OF pos, of ?texts]
  have "\<exists>batches. translate ?tr echo_service ?texts [] = Some (Inr ?texts, batches) \<and>
       concat batches = ?texts \<and>
       list_all (\<lambda>b. b \<noteq> [] \<and> int (length b) \<le> 2 \<and> (5 < total_chars b \<longrightarrow> length b = 1))
         batches"
    by (simp add: list_all_iff)
  with pos run show ?thesis by blast
qed

section \<open>The orchestrator\<close>








section \<open>Glossary rules before the cache\<close>

lemma contains_iff: "contains s sub \<longleftrightarrow> (\<exists>u v. s = u @ sub @ v)"
proof (induction s)
  case Nil
  then show ?case by auto
next
  case (Cons c cs)
  show ?case
  proof
    assume "contains (c # cs) sub"
    then consider "prefix sub (c # cs)" | "contains cs sub" by auto
    then show "\<exists>u v. c # cs = u @ sub @ v"
    proof cases
      case 1
      then obtain v where "c # cs = sub @ v" by (auto simp: prefix_def)
      then have "c # cs = [] @ sub @ v" by simp
      then show ?thesis by blast
    next
      case 2
      then obtain u v where "cs = u @ sub @ v" using Cons by blast
      then have "c # cs = (c # u) @ sub @ v" by simp
      then show ?thesis by blast
    qed
  next
    assume "\<exists>u v. c # cs = u @ sub @ v"
    then obtain u v where uv: "c # cs = u @ sub @ v" by blast
    show "contains (c # cs) sub"
    proof (cases u)
      case Nil
      then have "prefix sub (c # cs)" using uv by (simp add: prefix_def)
      then show ?thesis by simp
    next
      case (Cons a u')
      then have "cs = u' @ sub @ v" using uv by simp
      then have "contains cs sub" using Cons.IH by blast
      then show ?thesis by simp
    qed
  qed
qed







section \<open>The document extractor\<close>

lemma lookup_with_parent_lookup:
  "map_option snd (lookup_with_parent pn ns p) = lookup ns p"
  by (induction pn ns p rule: lookup_with_parent.induct) auto

lemma lwp_Cons_Suc:
  "lookup_with_parent pn (c # cs) (Suc j # q) = lookup_with_parent pn cs (j # q)"
  by simp

lemma descendants_member:
  "((p', pn, n) \<in> set (descendants_from parent parent_name i cs) \<longleftrightarrow>
      (\<exists>j q. p' = parent @ (i + j) # q \<and> lookup_with_parent parent_name cs (j # q) = Some (pn, n)))"
  "((p', pn, n) \<in> set (descendants_of p t) \<longleftrightarrow>
      (\<exists>j q. p' = p @ j # q \<and> lookup_with_parent (name_of t) (contents t) (j # q) = Some (pn, n)))"
proof (induction parent parent_name i cs and p t arbitrary: p' pn n and p' pn n
    rule: descendants_from_descendants_of.induct)
  case (1 parent parent_name i)
  show ?case by simp
next
  case (2 parent parent_name i c cs)
  show ?case (is "?L \<longleftrightarrow> ?R")
  proof
    assume ?L
    then consider (a) "p' = parent @ [i]" "pn = parent_name" "n = c"
      | (b) "(p', pn, n) \<in> set (descendants_of (parent @ [i]) c)"
      | (c) "(p', pn, n) \<in> set (descendants_from parent parent_name (Suc i) cs)" by auto
    then show ?R
    proof cases
      case a
      then have "p' = parent @ (i + 0) # [] \<and> lookup_with_parent parent_name (c # cs) (0 # []) = Some (pn, n)"
        by simp
      then show ?thesis by blast
    next
      case b
      then obtain j q where jq: "p' = (parent @ [i]) @ j # q"
        "lookup_with_parent (name_of c) (contents c) (j # q) = Some (pn, n)"
        using "2.IH"(1) by blast
      then have "p' = parent @ (i + 0) # (j # q) \<and>
          lookup_with_parent parent_name (c # cs) (0 # (j # q)) = Some (pn, n)"
        by simp
      then show ?thesis by blast
    next
      case c
      then obtain j q where jq: "p' = parent @ (Suc i + j) # q"
        "lookup_with_parent parent_name cs (j # q) = Some (pn, n)"
        using "2.IH"(2) by blast
      then have "p' = parent @ (i + Suc j) # q \<and>
          lookup_with_parent parent_name (c # cs) (Suc j # q) = Some (pn, n)"
        by (simp only: lwp_Cons_Suc add_Suc_right add_Suc)
      then show ?thesis by blast
    qed
  next
    assume ?R
    then obtain j q where jq: "p' = parent @ (i + j) # q"
      "lookup_with_parent parent_name (c # cs) (j # q) = Some (pn, n)" by blast
    show ?L
    proof (cases j)
      case 0
      show ?thesis
      proof (cases q)
        case Nil
        then show ?thesis using jq 0 by simp
      next
        case (Cons k q')
        then have "lookup_with_parent (name_of c) (contents c) (k # q') = Some (pn, n)"
          using jq 0 by simp
        moreover have "p' = (parent @ [i]) @ k # q'" using jq 0 Cons by simp
        ultimately have "(p', pn, n) \<in> set (descendants_of (parent @ [i]) c)"
          using "2.IH"(1) by blast
        then show ?thesis by simp
      qed
    next
      case (Suc j')
      then have "lookup_with_parent parent_name cs (j' # q) = Some (pn, n)"
        using jq by (simp only: lwp_Cons_Suc)
      moreover have "p' = parent @ (Suc i + j') # q" using jq Suc by simp
      ultimately have "(p', pn, n) \<in> set (descendants_from parent parent_name (Suc i) cs)"
        using "2.IH"(2) by blast
      then show ?thesis by simp
    qed
  qed
next
  case (3 p name attrs cs)
  show ?case using "3.IH"[of p' pn n] by simp
next
  case (4 p s)
  show ?case by simp
next
  case (5 p s)
  show ?case by simp
next
  case (6 p s)
  show ?case by simp
qed

lemma descendants_iff:
  "(p, pn, n) \<in> set (descendants soup) \<longleftrightarrow> lookup_with_parent ''[document]'' soup p = Some (pn, n)"
proof -
  have "(p, pn, n) \<in> set (descendants soup) \<longleftrightarrow>
      (\<exists>j q. p = [] @ (0 + j) # q \<and> lookup_with_parent ''[document]'' soup (j # q) = Some (pn, n))"
    unfolding descendants_def by (rule descendants_member(1))
  also have "\<dots> \<longleftrightarrow> lookup_with_parent ''[document]'' soup p = Some (pn, n)"
    by (cases p) auto
  finally show ?thesis .
qed

lemma append_less_iff: "(xs @ ys :: nat list) < xs @ zs \<longleftrightarrow> ys < zs"
  by (induction xs) auto

lemma less_extension: "q \<noteq> [] \<Longrightarrow> (p :: nat list) < p @ q"
  using append_less_iff[of p "[]" q] by (cases q) auto

lemma descendants_sorted:
  "sorted_wrt (<) (map fst (descendants_from parent parent_name i cs))"
  "sorted_wrt (<) (map fst (descendants_of p t))"
proof (induction parent parent_name i cs and p t rule: descendants_from_descendants_of.induct)
  case (1 parent parent_name i)
  show ?case by simp
next
  case (2 parent parent_name i c cs)
  let ?h = "parent @ [i]"
  let ?A = "descendants_of ?h c"
  let ?B = "descendants_from parent parent_name (Suc i) cs"
  have inA: "\<And>x. x \<in> set ?A \<Longrightarrow> \<exists>j q. fst x = ?h @ j # q"
  proof -
    fix x assume "x \<in> set ?A"
    then have "(fst x, fst (snd x), snd (snd x)) \<in> set ?A" by simp
    then show "\<exists>j q. fst x = ?h @ j # q" using descendants_member(2) by blast
  qed
  have inB: "\<And>y. y \<in> set ?B \<Longrightarrow> \<exists>j q. fst y = parent @ (Suc i + j) # q"
  proof -
    fix y assume "y \<in> set ?B"
    then have "(fst y, fst (snd y), snd (snd y)) \<in> set ?B" by simp
    then show "\<exists>j q. fst y = parent @ (Suc i + j) # q" using descendants_member(1) by blast
  qed
  have hA: "\<forall>x\<in>set ?A. ?h < fst x"
  proof
    fix x assume "x \<in> set ?A"
    then obtain j q where "fst x = ?h @ j # q" using inA by blast
    then show "?h < fst x" using less_extension[of "j # q" ?h] by simp
  qed
  have hB: "\<forall>y\<in>set ?B. ?h < fst y"
  proof
    fix y assume "y \<in> set ?B"
    then obtain j q where "fst y = parent @ (Suc i + j) # q" using inB by blast
    then show "?h < fst y" using append_less_iff[of parent "[i]" "(Suc i + j) # q"] by simp
  qed
  have AB: "\<forall>x\<in>set ?A. \<forall>y\<in>set ?B. fst x < fst y"
  proof (intro ballI)
    fix x y assume "x \<in> set ?A" "y \<in> set ?B"
    then obtain j q k r where "fst x = ?h @ j # q" "fst y = parent @ (Suc i + k) # r"
      using inA inB by blast
    then show "fst x < fst y"
      using append_less_iff[of parent "i # j # q" "(Suc i + k) # r"] by simp
  qed
  show ?case using "2.IH" hA hB AB by (auto simp: sorted_wrt_append)
next
  case (3 p name attrs cs)
  then show ?case by simp
next
  case (4 p s)
  show ?case by simp
next
  case (5 p s)
  show ?case by simp
next
  case (6 p s)
  show ?case by simp
qed

lemma lower_Nil_not_excluded: "lower [] \<notin> EXCLUDED_TAGS"
  by (simp add: lower_def EXCLUDED_TAGS_def)

lemma extract_text_loop_filter:
  "extract_text_loop es = map (\<lambda>(p, parent_name, element). (p, element)) (filter keeps es)"
proof (induction es rule: extract_text_loop.induct)
  case 1
  show ?case by simp
next
  case (2 p parent_name element es)
  then show ?case using lower_Nil_not_excluded by (auto simp: keeps_def)
qed

lemma map_fst_extract:
  "map fst (extract_text_loop es) = map fst (filter keeps es)"
  by (simp add: extract_text_loop_filter case_prod_beta comp_def)






section \<open>Rewriting a document at a path\<close>

lemma contents_set_contents [simp]:
  "contents (set_contents t cs) = (if is_navigable_string t then [] else cs)"
  by (cases t) auto

lemma set_contents_same [simp]: "set_contents t (contents t) = t"
  by (cases t) auto

lemma name_of_set_contents [simp]: "name_of (set_contents t cs) = name_of t"
  by (cases t) auto

lemma get_set_contents [simp]: "get (set_contents t cs) a = get t a"
  by (cases t) auto

lemma is_nav_set_contents [simp]: "is_navigable_string (set_contents t cs) = is_navigable_string t"
  by (cases t) auto

lemma contents_nav [simp]: "is_navigable_string t \<Longrightarrow> contents t = []"
  by (cases t) auto

lemma lookup_Nil_list [simp]: "lookup [] p = None"
  by (cases p) auto

lemma lookup_append:
  "q \<noteq> [] \<Longrightarrow> r \<noteq> [] \<Longrightarrow>
   lookup ns (q @ r) = (case lookup ns q of Some n \<Rightarrow> lookup (contents n) r | None \<Rightarrow> None)"
proof (induction ns q rule: lookup.induct)
  case (1 ns)
  then show ?case by simp
next
  case (2 ns i p)
  show ?case
  proof (cases "p = []")
    case True
    then show ?thesis using "2.prems" by simp
  next
    case False
    then show ?thesis using 2 by simp
  qed
qed

lemma update_at_invalid: "lookup ns p = None \<Longrightarrow> update_at ns p f = ns"
proof (induction ns p f rule: update_at.induct)
  case (1 ns f)
  show ?case by simp
next
  case (2 ns i p f)
  show ?case
  proof (cases "i < length ns")
    case False
    then show ?thesis by simp
  next
    case True
    then have "p \<noteq> []" using "2.prems" by auto
    moreover from this have "lookup (contents (ns ! i)) p = None" using "2.prems" True by simp
    ultimately show ?thesis using "2.IH" True by simp
  qed
qed

lemma length_update_at [simp]: "length (update_at ns p f) = length ns"
  by (cases p) auto

lemma lookup_update_at_self:
  "lookup ns p = Some n \<Longrightarrow> lookup (update_at ns p f) p = Some (f n)"
proof (induction ns p f arbitrary: n rule: update_at.induct)
  case (1 ns f)
  then show ?case by simp
next
  case (2 ns i p f)
  then have i: "i < length ns" by (auto split: if_splits)
  show ?case
  proof (cases "p = []")
    case True
    then show ?thesis using "2.prems" i by simp
  next
    case False
    then have l: "lookup (contents (ns ! i)) p = Some n" using "2.prems" i by simp
    then have "\<not> is_navigable_string (ns ! i)" by (cases "ns ! i") auto
    then show ?thesis using "2.IH"[OF i False l] i False by simp
  qed
qed

lemma lookup_update_at_other:
  "lookup ns p = Some n \<Longrightarrow> contents (f n) = contents n \<Longrightarrow> \<not> prefix q p \<Longrightarrow>
   lookup (update_at ns p f) q = lookup ns q"
proof (induction ns p f arbitrary: n q rule: update_at.induct)
  case (1 ns f)
  then show ?case by simp
next
  case (2 ns i p f)
  then have i: "i < length ns" by (auto split: if_splits)
  from "2.prems"(3) obtain j q' where q: "q = j # q'" by (cases q) auto
  show ?case
  proof (cases "j = i")
    case False
    then show ?thesis using q i by simp
  next
    case True
    then have np: "\<not> prefix q' p" using "2.prems"(3) q by simp
    then have q'ne: "q' \<noteq> []" by auto
    show ?thesis
    proof (cases "p = []")
      case pe: True
      then have "ns ! i = n" using "2.prems"(1) i by simp
      then show ?thesis using q True i pe q'ne "2.prems"(2) by simp
    next
      case False
      then have l: "lookup (contents (ns ! i)) p = Some n" using "2.prems" i by simp
      then have nn: "\<not> is_navigable_string (ns ! i)" by (cases "ns ! i") auto
      from "2.IH"[OF i False l "2.prems"(2) np]
      show ?thesis using q True i False q'ne nn by simp
    qed
  qed
qed

lemma lookup_update_at_ancestor:
  "lookup ns q = Some t \<Longrightarrow> strict_prefix q p \<Longrightarrow>
   \<exists>t'. lookup (update_at ns p f) q = Some t' \<and> name_of t' = name_of t \<and>
        (\<forall>a. get t' a = get t a) \<and> is_navigable_string t' = is_navigable_string t"
proof (induction ns p f arbitrary: t q rule: update_at.induct)
  case (1 ns f)
  then show ?case by simp
next
  case (2 ns i p f)
  from "2.prems"(1) obtain j q' where q: "q = j # q'" by (cases q) auto
  then have ji: "j = i" and sp: "strict_prefix q' p" using "2.prems"(2) by auto
  have i: "i < length ns" using "2.prems"(1) q ji by (auto split: if_splits)
  have pne: "p \<noteq> []" using sp by auto
  show ?case
  proof (cases "q' = []")
    case True
    then have "ns ! i = t" using "2.prems"(1) q ji i by simp
    then show ?thesis using q ji i True pne by simp
  next
    case False
    then have l: "lookup (contents (ns ! i)) q' = Some t" using "2.prems"(1) q ji i by simp
    then have nn: "\<not> is_navigable_string (ns ! i)" by (cases "ns ! i") auto
    from "2.IH"[OF i pne l sp] show ?thesis using q ji i False pne nn by simp
  qed
qed

lemma lookup_below_leaf:
  "lookup ns q = Some n \<Longrightarrow> contents n = [] \<Longrightarrow> strict_prefix q p \<Longrightarrow> lookup ns p = None"
proof -
  assume a: "lookup ns q = Some n" "contents n = []" "strict_prefix q p"
  then obtain r where r: "p = q @ r" "r \<noteq> []" by (auto simp: strict_prefix_def prefix_def)
  have "q \<noteq> []" using a(1) by auto
  then show ?thesis using lookup_append[of q r ns] r a by simp
qed

lemma lookup_update_at_below:
  "lookup ns p = Some n \<Longrightarrow> r \<noteq> [] \<Longrightarrow>
   lookup (update_at ns p f) (p @ r) = lookup (contents (f n)) r"
proof -
  assume a: "lookup ns p = Some n" "r \<noteq> []"
  then have "p \<noteq> []" by auto
  then show ?thesis
    using lookup_append[of p r "update_at ns p f"] a lookup_update_at_self[OF a(1), of f] by simp
qed

section \<open>The reinsertion engine\<close>

lemma apply_writes_Nil [simp]: "apply_writes soup [] = soup"
  by (simp add: apply_writes_def)

lemma apply_writes_Cons [simp]:
  "apply_writes soup ((tag, key, v) # ws) = apply_writes (set_item soup tag key v) ws"
  by (simp add: apply_writes_def)

lemma replace_attrs_writes:
  "replace_attrs soup pairs
     = apply_writes soup (map (\<lambda>((old, tag, attr), new_text). (tag, attr, safe_text new_text)) pairs)"
  by (induction soup pairs rule: replace_attrs.induct) (auto simp: safe_text_def)

lemma replace_metas_writes:
  "replace_metas soup pairs
     = apply_writes soup (map (\<lambda>((old, tag), new_text). (tag, ''content'', safe_text new_text)) pairs)"
  by (induction soup pairs rule: replace_metas.induct) (auto simp: safe_text_def)

lemma map_of_dict_set: "map_of (dict_set attrs key v) = (map_of attrs)(key \<mapsto> v)"
  by (induction attrs key v rule: dict_set.induct) auto

lemma get_set_attrs:
  "get (set_attrs key v t) a = (if \<not> is_navigable_string t \<and> a = key then Some v else get t a)"
  by (cases t) (auto simp: map_of_dict_set)

lemma contents_set_attrs [simp]: "contents (set_attrs key v t) = contents t"
  by (cases t) auto

lemma is_nav_set_attrs [simp]: "is_navigable_string (set_attrs key v t) = is_navigable_string t"
  by (cases t) auto

lemma set_attrs_nav [simp]: "is_navigable_string t \<Longrightarrow> set_attrs key v t = t"
  by (cases t) auto

lemma valid_prefix:
  assumes "lookup ns p = Some n" "strict_prefix q p" "q \<noteq> []"
  shows "\<exists>t. lookup ns q = Some t \<and> \<not> is_navigable_string t"
proof -
  from assms obtain r where r: "p = q @ r" "r \<noteq> []" by (auto simp: strict_prefix_def prefix_def)
  from lookup_append[OF assms(3) r(2), of ns] assms(1) r(1)
  obtain t where t: "lookup ns q = Some t" "lookup (contents t) r = Some n"
    by (auto split: option.splits)
  then have "contents t \<noteq> []" by auto
  then have "\<not> is_navigable_string t" by (cases t) auto
  with t show ?thesis by blast
qed

lemma set_item_keeps_strings:
  assumes "lookup soup q = Some m" "is_navigable_string m"
  shows "lookup (set_item soup tag key v) q = Some m"
proof (cases "lookup soup tag")
  case None
  then show ?thesis using assms by (simp add: set_item_def update_at_invalid)
next
  case (Some t)
  show ?thesis
  proof (cases "q = tag")
    case True
    then have "t = m" using Some assms by simp
    then show ?thesis using lookup_update_at_self[OF Some, of "set_attrs key v"] True assms
      by (simp add: set_item_def)
  next
    case False
    have "\<not> prefix q tag"
    proof
      assume "prefix q tag"
      then have "strict_prefix q tag" using False by (simp add: strict_prefix_def)
      then have "lookup soup tag = None" using lookup_below_leaf[OF assms(1)] assms(2) by simp
      then show False using Some by simp
    qed
    then show ?thesis
      using lookup_update_at_other[OF Some, of "set_attrs key v" q] assms
      by (simp add: set_item_def)
  qed
qed

lemma set_item_shell:
  assumes "lookup soup q = Some t" "q \<noteq> tag"
  shows "\<exists>t'. lookup (set_item soup tag key v) q = Some t' \<and>
          (\<forall>a. get t' a = get t a) \<and> is_navigable_string t' = is_navigable_string t"
proof (cases "lookup soup tag")
  case None
  then show ?thesis using assms by (simp add: set_item_def update_at_invalid)
next
  case (Some n)
  show ?thesis
  proof (cases "prefix q tag")
    case True
    then have "strict_prefix q tag" using assms(2) by (simp add: strict_prefix_def)
    from lookup_update_at_ancestor[OF assms(1) this, of "set_attrs key v"]
    show ?thesis by (auto simp: set_item_def)
  next
    case False
    then show ?thesis
      using lookup_update_at_other[OF Some, of "set_attrs key v" q] assms
      by (simp add: set_item_def)
  qed
qed

lemma set_item_attr_at:
  "attr_at (set_item soup tag key v) q a
     = (if q = tag \<and> a = key \<and> is_tag_at soup tag then Some v else attr_at soup q a)"
proof (cases "lookup soup tag")
  case None
  then show ?thesis by (simp add: set_item_def update_at_invalid is_tag_at_def)
next
  case (Some n)
  show ?thesis
  proof (cases "q = tag")
    case True
    then show ?thesis
      using lookup_update_at_self[OF Some, of "set_attrs key v"] Some
      by (auto simp: set_item_def attr_at_def is_tag_at_def get_set_attrs)
  next
    case False
    show ?thesis
    proof (cases "lookup soup q")
      case (Some t)
      from set_item_shell[OF Some False, of key v] show ?thesis
        using False Some by (auto simp: attr_at_def)
    next
      case None
      have "lookup (set_item soup tag key v) q = None"
      proof (cases "prefix q tag")
        case True
        then have sp: "strict_prefix q tag" using False by (simp add: strict_prefix_def)
        show ?thesis
        proof (cases "q = []")
          case True
          then show ?thesis by simp
        next
          case qne: False
          from valid_prefix[OF Some sp qne] None show ?thesis by simp
        qed
      next
        case np: False
        then show ?thesis
          using lookup_update_at_other[OF Some, of "set_attrs key v" q] None
          by (simp add: set_item_def)
      qed
      then show ?thesis using None False by (simp add: attr_at_def)
    qed
  qed
qed

lemma set_item_is_tag_at: "is_tag_at (set_item soup tag key v) q = is_tag_at soup q"
proof (cases "lookup soup q")
  case None
  have "lookup (set_item soup tag key v) q = None"
  proof (cases "lookup soup tag")
    case None
    then show ?thesis using \<open>lookup soup q = None\<close> by (simp add: set_item_def update_at_invalid)
  next
    case (Some n)
    show ?thesis
    proof (cases "prefix q tag")
      case True
      show ?thesis
      proof (cases "q = []")
        case True
        then show ?thesis by simp
      next
        case qne: False
        have "q \<noteq> tag" using None Some by auto
        then have "strict_prefix q tag" using True by (simp add: strict_prefix_def)
        from valid_prefix[OF Some this qne] None show ?thesis by simp
      qed
    next
      case False
      then show ?thesis
        using lookup_update_at_other[OF Some, of "set_attrs key v" q] None
        by (simp add: set_item_def)
    qed
  qed
  then show ?thesis using None by (simp add: is_tag_at_def)
next
  case (Some t)
  show ?thesis
  proof (cases "q = tag")
    case True
    then show ?thesis using lookup_update_at_self[OF Some, of "set_attrs key v"] Some
      by (simp add: is_tag_at_def set_item_def)
  next
    case False
    from set_item_shell[OF Some False, of key v] Some show ?thesis
      by (auto simp: is_tag_at_def)
  qed
qed

lemma apply_writes_keeps_strings:
  "lookup soup q = Some m \<Longrightarrow> is_navigable_string m \<Longrightarrow> lookup (apply_writes soup ws) q = Some m"
proof (induction ws arbitrary: soup)
  case Nil
  then show ?case by simp
next
  case (Cons w ws)
  obtain tag key v where w: "w = (tag, key, v)" by (cases w)
  show ?case using Cons.IH[OF set_item_keeps_strings[OF Cons.prems, of tag key v] Cons.prems(2)] w by simp
qed

lemma apply_writes_is_tag_at: "is_tag_at (apply_writes soup ws) q = is_tag_at soup q"
proof (induction ws arbitrary: soup)
  case Nil
  then show ?case by simp
next
  case (Cons w ws)
  obtain tag key v where w: "w = (tag, key, v)" by (cases w)
  show ?case using Cons.IH[of "set_item soup tag key v"] w by (simp add: set_item_is_tag_at)
qed

lemma apply_writes_untouched:
  "\<forall>w\<in>set ws. (fst w, fst (snd w)) \<noteq> (q, a) \<Longrightarrow> attr_at (apply_writes soup ws) q a = attr_at soup q a"
proof (induction ws arbitrary: soup)
  case Nil
  then show ?case by simp
next
  case (Cons w ws)
  obtain tag key v where w: "w = (tag, key, v)" by (cases w)
  have "attr_at (apply_writes (set_item soup tag key v) ws) q a = attr_at (set_item soup tag key v) q a"
    using Cons by simp
  also have "\<dots> = attr_at soup q a" using Cons.prems w by (auto simp: set_item_attr_at)
  finally show ?case using w by simp
qed

lemma apply_writes_last:
  "i < length ws \<Longrightarrow> ws ! i = (tag, key, v) \<Longrightarrow> is_tag_at soup tag \<Longrightarrow>
   (\<forall>j. i < j \<and> j < length ws \<longrightarrow> (fst (ws ! j), fst (snd (ws ! j))) \<noteq> (tag, key)) \<Longrightarrow>
   attr_at (apply_writes soup ws) tag key = Some v"
proof (induction ws arbitrary: soup i)
  case Nil
  then show ?case by simp
next
  case (Cons w ws)
  obtain tag0 key0 v0 where w: "w = (tag0, key0, v0)" by (cases w)
  show ?case
  proof (cases i)
    case 0
    then have eq: "tag0 = tag" "key0 = key" "v0 = v" using Cons.prems(2) w by auto
    have "\<forall>x\<in>set ws. (fst x, fst (snd x)) \<noteq> (tag, key)"
    proof
      fix x assume "x \<in> set ws"
      then obtain j where j: "j < length ws" "ws ! j = x" by (auto simp: in_set_conv_nth)
      then have "0 < Suc j \<and> Suc j < length (w # ws)" by simp
      then have "(fst ((w # ws) ! Suc j), fst (snd ((w # ws) ! Suc j))) \<noteq> (tag, key)"
        using Cons.prems(4) 0 by blast
      then show "(fst x, fst (snd x)) \<noteq> (tag, key)" using j by simp
    qed
    from apply_writes_untouched[OF this, of "set_item soup tag key v"]
    show ?thesis using w eq Cons.prems(3) by (simp add: set_item_attr_at)
  next
    case (Suc i')
    have a: "i' < length ws" using Cons.prems(1) Suc by simp
    have b: "ws ! i' = (tag, key, v)" using Cons.prems(2) Suc by simp
    have c: "is_tag_at (set_item soup tag0 key0 v0) tag" using Cons.prems(3) by (simp add: set_item_is_tag_at)
    have d: "\<forall>j. i' < j \<and> j < length ws \<longrightarrow> (fst (ws ! j), fst (snd (ws ! j))) \<noteq> (tag, key)"
    proof (intro allI impI)
      fix j assume "i' < j \<and> j < length ws"
      then have "i < Suc j \<and> Suc j < length (w # ws)" using Suc by simp
      then have "(fst ((w # ws) ! Suc j), fst (snd ((w # ws) ! Suc j))) \<noteq> (tag, key)"
        using Cons.prems(4) by blast
      then show "(fst (ws ! j), fst (snd (ws ! j))) \<noteq> (tag, key)" by simp
    qed
    from Cons.IH[OF a b c d] show ?thesis using w by simp
  qed
qed

lemma replace_with_valid:
  "lookup soup p = Some n \<Longrightarrow>
   replace_with soup p s = Inr (update_at soup p (\<lambda>old. NavigableString s))"
  by (simp add: replace_with_def)

lemma leaf_replace_other_string:
  assumes p: "lookup soup p = Some n" "is_navigable_string n"
    and q: "lookup soup q = Some m" "is_navigable_string m" "q \<noteq> p"
  shows "lookup (update_at soup p (\<lambda>old. NavigableString s)) q = Some m"
proof -
  have "\<not> prefix q p"
  proof
    assume "prefix q p"
    then have "strict_prefix q p" using q(3) by (simp add: strict_prefix_def)
    then have "lookup soup p = None" using lookup_below_leaf[OF q(1)] q(2) by simp
    then show False using p by simp
  qed
  then show ?thesis
    using lookup_update_at_other[OF p(1), of "\<lambda>old. NavigableString s" q] p(2) q(1) by simp
qed

lemma leaf_replace_shell:
  assumes p: "lookup soup p = Some n" "is_navigable_string n"
    and q: "lookup soup q = Some t" "q \<noteq> p"
  shows "\<exists>t'. lookup (update_at soup p (\<lambda>old. NavigableString s)) q = Some t' \<and>
          (\<forall>a. get t' a = get t a) \<and> is_navigable_string t' = is_navigable_string t"
proof (cases "prefix q p")
  case True
  then have "strict_prefix q p" using q(2) by (simp add: strict_prefix_def)
  from lookup_update_at_ancestor[OF q(1) this, of "\<lambda>old. NavigableString s"]
  show ?thesis by auto
next
  case False
  then show ?thesis
    using lookup_update_at_other[OF p(1), of "\<lambda>old. NavigableString s" q] p(2) q(1) by simp
qed

lemma replace_nodes_result:
  "distinct (map (\<lambda>x. fst (fst x)) pairs) \<Longrightarrow>
   (\<forall>x\<in>set pairs. \<exists>n. lookup soup (fst (fst x)) = Some n \<and> is_navigable_string n) \<Longrightarrow>
   \<exists>soup'. replace_nodes soup pairs = Inr soup' \<and>
     (\<forall>i<length pairs. lookup soup' (fst (fst (pairs ! i)))
          = Some (NavigableString (safe_text (snd (pairs ! i))))) \<and>
     (\<forall>q m. q \<notin> (\<lambda>x. fst (fst x)) ` set pairs \<longrightarrow> lookup soup q = Some m \<longrightarrow>
          is_navigable_string m \<longrightarrow> lookup soup' q = Some m) \<and>
     (\<forall>q t. q \<notin> (\<lambda>x. fst (fst x)) ` set pairs \<longrightarrow> lookup soup q = Some t \<longrightarrow>
          (\<exists>t'. lookup soup' q = Some t' \<and> (\<forall>a. get t' a = get t a) \<and>
                is_navigable_string t' = is_navigable_string t))"
proof (induction pairs arbitrary: soup)
  case Nil
  then show ?case by simp
next
  case (Cons x pairs)
  obtain p node new_text where x: "x = ((p, node), new_text)" by (cases x) auto
  let ?s = "safe_text new_text"
  let ?soup1 = "update_at soup p (\<lambda>old. NavigableString ?s)"
  let ?P = "(\<lambda>x. fst (fst x)) ` set pairs"
  from Cons.prems(2) x obtain n where n: "lookup soup p = Some n" "is_navigable_string n" by auto
  have pnot: "p \<notin> ?P" using Cons.prems(1) x by auto
  have d: "distinct (map (\<lambda>x. fst (fst x)) pairs)" using Cons.prems(1) by simp
  have v: "\<forall>y\<in>set pairs. \<exists>n. lookup ?soup1 (fst (fst y)) = Some n \<and> is_navigable_string n"
  proof
    fix y assume y: "y \<in> set pairs"
    then obtain m where m: "lookup soup (fst (fst y)) = Some m" "is_navigable_string m"
      using Cons.prems(2) by auto
    have "fst (fst y) \<noteq> p" using y pnot by auto
    from leaf_replace_other_string[OF n m this, of ?s] m(2)
    show "\<exists>n. lookup ?soup1 (fst (fst y)) = Some n \<and> is_navigable_string n" by blast
  qed
  from Cons.IH[OF d v] obtain soup' where s':
    "replace_nodes ?soup1 pairs = Inr soup'"
    "\<forall>i<length pairs. lookup soup' (fst (fst (pairs ! i)))
          = Some (NavigableString (safe_text (snd (pairs ! i))))"
    "\<forall>q m. q \<notin> ?P \<longrightarrow> lookup ?soup1 q = Some m \<longrightarrow> is_navigable_string m \<longrightarrow> lookup soup' q = Some m"
    "\<forall>q t. q \<notin> ?P \<longrightarrow> lookup ?soup1 q = Some t \<longrightarrow>
          (\<exists>t'. lookup soup' q = Some t' \<and> (\<forall>a. get t' a = get t a) \<and>
                is_navigable_string t' = is_navigable_string t)"
    by blast
  have r: "replace_nodes soup (x # pairs) = Inr soup'"
    using s'(1) x replace_with_valid[OF n(1), of ?s] by (simp add: safe_text_def)
  have self: "lookup ?soup1 p = Some (NavigableString ?s)"
    using lookup_update_at_self[OF n(1)] by simp
  have a: "\<forall>i<length (x # pairs). lookup soup' (fst (fst ((x # pairs) ! i)))
          = Some (NavigableString (safe_text (snd ((x # pairs) ! i))))"
  proof (intro allI impI)
    fix i assume i: "i < length (x # pairs)"
    show "lookup soup' (fst (fst ((x # pairs) ! i)))
          = Some (NavigableString (safe_text (snd ((x # pairs) ! i))))"
    proof (cases i)
      case 0
      have "lookup soup' p = Some (NavigableString ?s)" using s'(3) pnot self by simp
      then show ?thesis using 0 x by simp
    next
      case (Suc j)
      then show ?thesis using s'(2) i by simp
    qed
  qed
  have b: "\<forall>q m. q \<notin> (\<lambda>x. fst (fst x)) ` set (x # pairs) \<longrightarrow> lookup soup q = Some m \<longrightarrow>
          is_navigable_string m \<longrightarrow> lookup soup' q = Some m"
  proof (intro allI impI)
    fix q m assume q: "q \<notin> (\<lambda>x. fst (fst x)) ` set (x # pairs)" "lookup soup q = Some m"
      "is_navigable_string m"
    then have "q \<noteq> p" "q \<notin> ?P" using x by auto
    from leaf_replace_other_string[OF n q(2,3) this(1), of ?s] this(2) q(3) s'(3)
    show "lookup soup' q = Some m" by blast
  qed
  have c: "\<forall>q t. q \<notin> (\<lambda>x. fst (fst x)) ` set (x # pairs) \<longrightarrow> lookup soup q = Some t \<longrightarrow>
          (\<exists>t'. lookup soup' q = Some t' \<and> (\<forall>a. get t' a = get t a) \<and>
                is_navigable_string t' = is_navigable_string t)"
  proof (intro allI impI)
    fix q t assume q: "q \<notin> (\<lambda>x. fst (fst x)) ` set (x # pairs)" "lookup soup q = Some t"
    then have qp: "q \<noteq> p" "q \<notin> ?P" using x by auto
    from leaf_replace_shell[OF n q(2) qp(1), of ?s] obtain t1 where t1:
      "lookup ?soup1 q = Some t1" "\<forall>a. get t1 a = get t a"
      "is_navigable_string t1 = is_navigable_string t" by blast
    from s'(4) qp(2) t1(1) obtain t' where "lookup soup' q = Some t'" "\<forall>a. get t' a = get t1 a"
      "is_navigable_string t' = is_navigable_string t1" by blast
    then show "\<exists>t'. lookup soup' q = Some t' \<and> (\<forall>a. get t' a = get t a) \<and>
                is_navigable_string t' = is_navigable_string t" using t1 by simp
  qed
  show ?case using r a b c by blast
qed

lemma descendants_paths_distinct: "distinct (map fst (descendants soup))"
proof -
  have "sorted_wrt (<) (map fst (descendants soup))"
    unfolding descendants_def by (rule descendants_sorted(1))
  then show ?thesis by (simp add: strict_sorted_iff)
qed

lemma descendants_lookup:
  "(p, pn, n) \<in> set (descendants soup) \<Longrightarrow> lookup soup p = Some n"
  using descendants_iff[of p pn n soup] lookup_with_parent_lookup[of "''[document]''" soup p]
  by simp

lemma extract_text_nodes_valid:
  "(p, n) \<in> set (extract_text_nodes soup) \<Longrightarrow> lookup soup p = Some n \<and> is_navigable_string n"
proof -
  assume "(p, n) \<in> set (extract_text_nodes soup)"
  then obtain pn where "(p, pn, n) \<in> set (descendants soup)" "keeps (p, pn, n)"
    by (force simp: extract_text_nodes_def extract_text_loop_filter)
  then show ?thesis using descendants_lookup by (auto simp: keeps_def)
qed

lemma extract_text_nodes_distinct: "distinct (map fst (extract_text_nodes soup))"
proof -
  have "distinct (map fst (filter keeps (descendants soup)))"
    using descendants_paths_distinct by (rule distinct_map_filter)
  then show ?thesis by (simp add: extract_text_nodes_def map_fst_extract)
qed

lemma find_all_valid:
  "(p, e) \<in> set (find_all soup accept) \<Longrightarrow>
   lookup soup p = Some e \<and> \<not> is_navigable_string e \<and> accept e"
proof -
  assume "(p, e) \<in> set (find_all soup accept)"
  then obtain pn where "(p, pn, e) \<in> set (descendants soup)" "\<not> is_navigable_string e" "accept e"
    by (force simp: find_all_def)
  then show ?thesis using descendants_lookup by blast
qed

lemma find_all_distinct: "distinct (map fst (find_all soup accept))"
proof -
  let ?Q = "\<lambda>(p, parent_name, element). \<not> is_navigable_string element \<and> accept element"
  have "map fst (find_all soup accept) = map fst (filter ?Q (descendants soup))"
    by (simp add: find_all_def case_prod_beta comp_def)
  moreover have "distinct (map fst (filter ?Q (descendants soup)))"
    using descendants_paths_distinct by (rule distinct_map_filter)
  ultimately show ?thesis by simp
qed

lemma attrs_of_tag_member:
  "(old, q, a) \<in> set (attrs_of_tag p tag attrs) \<Longrightarrow>
   q = p \<and> a \<in> set attrs \<and> get tag a = Some old"
  by (induction p tag attrs rule: attrs_of_tag.induct) (auto split: if_splits option.splits)

lemma attrs_of_tag_distinct:
  "distinct attrs \<Longrightarrow> distinct (map snd (attrs_of_tag p tag attrs))"
proof (induction p tag attrs rule: attrs_of_tag.induct)
  case (1 p tag)
  then show ?case by simp
next
  case (2 p tag attr more_attrs)
  then show ?case
    by (auto split: option.splits dest: attrs_of_tag_member)
qed

lemma attrs_of_tags_member:
  "(old, q, a) \<in> set (attrs_of_tags tags) \<Longrightarrow>
   \<exists>e. (q, e) \<in> set tags \<and> a \<in> set TRANSLATE_ATTRS \<and> get e a = Some old"
proof (induction tags rule: attrs_of_tags.induct)
  case 1
  then show ?case by simp
next
  case (2 p tag tags)
  then show ?case by (auto split: if_splits dest: attrs_of_tag_member)
qed

lemma attrs_of_tags_distinct:
  "distinct (map fst tags) \<Longrightarrow> distinct (map snd (attrs_of_tags tags))"
proof (induction tags rule: attrs_of_tags.induct)
  case 1
  then show ?case by simp
next
  case (2 p tag tags)
  have d: "distinct TRANSLATE_ATTRS" by (simp add: TRANSLATE_ATTRS_def)
  have disj: "\<And>x y. x \<in> set (attrs_of_tag p tag TRANSLATE_ATTRS) \<Longrightarrow> y \<in> set (attrs_of_tags tags) \<Longrightarrow>
      snd x \<noteq> snd y"
  proof -
    fix x y assume x: "x \<in> set (attrs_of_tag p tag TRANSLATE_ATTRS)" and y: "y \<in> set (attrs_of_tags tags)"
    obtain o1 q1 a1 where x': "x = (o1, q1, a1)" by (cases x)
    obtain o2 q2 a2 where y': "y = (o2, q2, a2)" by (cases y)
    have "q1 = p" using x x' attrs_of_tag_member by blast
    moreover obtain e where "(q2, e) \<in> set tags" using y y' attrs_of_tags_member by blast
    then have "q2 \<in> fst ` set tags" by force
    then have "q2 \<noteq> p" using "2.prems" by auto
    ultimately show "snd x \<noteq> snd y" using x' y' by simp
  qed
  show ?case
  proof (cases "lower (name_of tag) \<in> EXCLUDED_TAGS")
    case True
    then show ?thesis using 2 by simp
  next
    case False
    have "distinct (map snd (attrs_of_tags tags))" using 2 False by simp
    moreover have "distinct (map snd (attrs_of_tag p tag TRANSLATE_ATTRS))"
      using d by (rule attrs_of_tag_distinct)
    moreover have "set (map snd (attrs_of_tag p tag TRANSLATE_ATTRS)) \<inter> set (map snd (attrs_of_tags tags)) = {}"
      using disj by fastforce
    ultimately show ?thesis using False by (simp del: set_map)
  qed
qed

lemma extract_attr_texts_valid:
  "(old, tag, attr) \<in> set (extract_attr_texts soup) \<Longrightarrow>
   is_tag_at soup tag \<and> attr_at soup tag attr = Some old \<and> attr \<in> set TRANSLATE_ATTRS"
proof -
  assume "(old, tag, attr) \<in> set (extract_attr_texts soup)"
  then obtain e where e: "(tag, e) \<in> set (find_all soup (\<lambda>tag. True))"
      "attr \<in> set TRANSLATE_ATTRS" "get e attr = Some old"
    unfolding extract_attr_texts_def using attrs_of_tags_member by blast
  from find_all_valid[OF e(1)] e(2,3) show ?thesis by (simp add: is_tag_at_def attr_at_def)
qed

lemma extract_attr_texts_distinct:
  "distinct (map snd (extract_attr_texts soup))"
  unfolding extract_attr_texts_def using find_all_distinct by (rule attrs_of_tags_distinct)

lemma metas_of_tags_member:
  "(old, q) \<in> set (metas_of_tags tags) \<Longrightarrow> \<exists>e. (q, e) \<in> set tags \<and> get e ''content'' = Some old"
  by (induction tags rule: metas_of_tags.induct) (auto split: if_splits option.splits)

lemma extract_meta_descriptions_valid:
  "(old, tag) \<in> set (extract_meta_descriptions soup) \<Longrightarrow>
   is_tag_at soup tag \<and> attr_at soup tag ''content'' = Some old"
proof -
  assume "(old, tag) \<in> set (extract_meta_descriptions soup)"
  then obtain attr v where "(old, tag) \<in> set (metas_of_tags (find_all soup (meta_matches attr v)))"
    by (auto simp: extract_meta_descriptions_def)
  then obtain e where e: "(tag, e) \<in> set (find_all soup (meta_matches attr v))"
    "get e ''content'' = Some old" using metas_of_tags_member by blast
  from find_all_valid[OF e(1)] e(2) show ?thesis by (simp add: is_tag_at_def attr_at_def)
qed

lemma zip_keys_distinct:
  "distinct (map f xs) \<Longrightarrow> distinct (map (\<lambda>x. f (fst x)) (zip xs ys))"
proof -
  assume d: "distinct (map f xs)"
  have "map (\<lambda>x. f (fst x)) (zip xs ys) = map f (map fst (zip xs ys))" by (simp add: comp_def)
  also have "\<dots> = take (min (length xs) (length ys)) (map f xs)"
    by (simp add: map_fst_zip_take take_map)
  finally show ?thesis using d by simp
qed

lemma zip_key_beyond:
  assumes "distinct (map f xs)" "i < length xs" "length ys \<le> i"
  shows "f (xs ! i) \<notin> (\<lambda>x. f (fst x)) ` set (zip xs ys)"
proof
  assume "f (xs ! i) \<in> (\<lambda>x. f (fst x)) ` set (zip xs ys)"
  then obtain x where x: "x \<in> set (zip xs ys)" "f (fst x) = f (xs ! i)" by auto
  then obtain j where j: "j < length xs" "j < length ys" "x = (xs ! j, ys ! j)"
    by (auto simp: set_zip)
  then have "map f xs ! j = map f xs ! i" using x(2) assms(2) by simp
  then have "j = i" using nth_eq_iff_index_eq[OF assms(1), of j i] assms(2) j(1) by simp
  then show False using j(2) assms(3) by simp
qed

lemma zip_key_later:
  assumes "distinct (map f xs)" "i < length xs" "i < j" "j < length (zip xs ys)"
  shows "f (fst (zip xs ys ! j)) \<noteq> f (xs ! i)"
proof
  assume e: "f (fst (zip xs ys ! j)) = f (xs ! i)"
  have j: "j < length xs" "j < length ys" using assms(4) by auto
  then have "map f xs ! j = map f xs ! i" using e assms(2) by simp
  then have "j = i" using nth_eq_iff_index_eq[OF assms(1), of j i] assms(2) j(1) by simp
  then show False using assms(3) by simp
qed

lemma content_not_translatable: "''content'' \<notin> set TRANSLATE_ATTRS"
  by (simp add: TRANSLATE_ATTRS_def)


text \<open>
  C9 (as stated, false on the code): with two extracted text runs and a replacement
  sequence of length one, the \<open>zip\<close> ends after the first unit; the first run receives the
  empty string (its replacement is \<open>None\<close>), the second keeps its original text.  And a
  \<open>meta\<close> tag that both selectors match is two units: of their two replacements the
  second is what the tag holds in the end.
\<close>

theorem second_unit_left_stale:
  "extract_text_nodes two_runs = [([0, 0], NavigableString ''a''), ([1, 0], NavigableString ''b'')] \<and>
   replace_in_html two_runs (extract_text_nodes two_runs) [None]
       (extract_attr_texts two_runs) [] (extract_meta_descriptions two_runs) []
     = Inr [Tag ''p'' [] [NavigableString []], Tag ''p'' [] [NavigableString ''b'']] \<and>
   extract_meta_descriptions double_meta = [(''d'', [0]), (''d'', [0])] \<and>
   replace_in_html double_meta (extract_text_nodes double_meta) []
       (extract_attr_texts double_meta) [] (extract_meta_descriptions double_meta)
       [Some ''X'', Some ''Y'']
     = Inr [Tag ''meta'' [(''name'', ''description''), (''property'', ''og:description''),
                          (''content'', ''Y'')] []]"
  by code_simp

text \<open>
  C9 (amended).  For the units extracted from a document and any three sequences of
  replacements, \<open>replace_in_html\<close> raises no error; a text run, attribute or meta content
  with a position in its replacement sequence is overwritten where it stands, with the
  empty string when the replacement is \<open>None\<close>; a unit beyond the end of its sequence
  keeps its text.  When several meta units name one tag, the last of them that has a
  replacement decides its content.
\<close>

theorem replace_in_html_overwrites:
  assumes N: "nodes = extract_text_nodes soup"
    and A: "attr_items = extract_attr_texts soup"
    and M: "meta_items = extract_meta_descriptions soup"
  shows "\<exists>soup'.
     replace_in_html soup nodes node_texts attr_items attr_texts meta_items meta_texts = Inr soup' \<and>
     (\<forall>i<length nodes. lookup soup' (fst (nodes ! i))
        = (if i < length node_texts then Some (NavigableString (safe_text (node_texts ! i)))
           else Some (snd (nodes ! i)))) \<and>
     (\<forall>i<length attr_items.
        attr_at soup' (fst (snd (attr_items ! i))) (snd (snd (attr_items ! i)))
        = (if i < length attr_texts then Some (safe_text (attr_texts ! i))
           else Some (fst (attr_items ! i)))) \<and>
     (\<forall>i<length meta_items.
        (i < length meta_texts \<longrightarrow>
         (\<forall>j. i < j \<and> j < length meta_items \<and> j < length meta_texts
              \<longrightarrow> snd (meta_items ! j) \<noteq> snd (meta_items ! i)) \<longrightarrow>
         attr_at soup' (snd (meta_items ! i)) ''content'' = Some (safe_text (meta_texts ! i))) \<and>
        (length meta_texts \<le> i \<longrightarrow>
         (\<forall>j. j < length meta_items \<and> j < length meta_texts
              \<longrightarrow> snd (meta_items ! j) \<noteq> snd (meta_items ! i)) \<longrightarrow>
         attr_at soup' (snd (meta_items ! i)) ''content'' = Some (fst (meta_items ! i))))"
proof -
  let ?pn = "zip nodes node_texts"
  let ?P = "(\<lambda>x. fst (fst x)) ` set ?pn"
  let ?wa = "map (\<lambda>((old, tag, attr), new_text). (tag, attr, safe_text new_text)) (zip attr_items attr_texts)"
  let ?wm = "map (\<lambda>((old, tag), new_text). (tag, ''content'', safe_text new_text)) (zip meta_items meta_texts)"
  have dn: "distinct (map fst nodes)" using N extract_text_nodes_distinct by simp
  have vn: "\<And>i. i < length nodes \<Longrightarrow>
      lookup soup (fst (nodes ! i)) = Some (snd (nodes ! i)) \<and> is_navigable_string (snd (nodes ! i))"
  proof -
    fix i assume "i < length nodes"
    then have "(fst (nodes ! i), snd (nodes ! i)) \<in> set (extract_text_nodes soup)"
      using N by simp
    then show "lookup soup (fst (nodes ! i)) = Some (snd (nodes ! i)) \<and> is_navigable_string (snd (nodes ! i))"
      by (rule extract_text_nodes_valid)
  qed
  have d1: "distinct (map (\<lambda>x. fst (fst x)) ?pn)" using dn by (rule zip_keys_distinct)
  have v1: "\<forall>x\<in>set ?pn. \<exists>n. lookup soup (fst (fst x)) = Some n \<and> is_navigable_string n"
  proof
    fix x assume "x \<in> set ?pn"
    then obtain j where "j < length nodes" "fst x = nodes ! j" by (auto simp: set_zip)
    then show "\<exists>n. lookup soup (fst (fst x)) = Some n \<and> is_navigable_string n" using vn by auto
  qed
  from replace_nodes_result[OF d1 v1] obtain soup1 where s1:
    "replace_nodes soup ?pn = Inr soup1"
    "\<forall>i<length ?pn. lookup soup1 (fst (fst (?pn ! i))) = Some (NavigableString (safe_text (snd (?pn ! i))))"
    "\<forall>q m. q \<notin> ?P \<longrightarrow> lookup soup q = Some m \<longrightarrow> is_navigable_string m \<longrightarrow> lookup soup1 q = Some m"
    "\<forall>q t. q \<notin> ?P \<longrightarrow> lookup soup q = Some t \<longrightarrow>
          (\<exists>t'. lookup soup1 q = Some t' \<and> (\<forall>a. get t' a = get t a) \<and>
                is_navigable_string t' = is_navigable_string t)"
    by blast
  let ?soup2 = "apply_writes soup1 ?wa"
  let ?soup3 = "apply_writes ?soup2 ?wm"
  have res: "replace_in_html soup nodes node_texts attr_items attr_texts meta_items meta_texts = Inr ?soup3"
    using s1(1) by (simp add: replace_in_html_def replace_attrs_writes replace_metas_writes)
  \<comment> \<open>tags keep their attributes through the text replacements\<close>
  have tag1: "\<And>q. is_tag_at soup q \<Longrightarrow> is_tag_at soup1 q \<and> (\<forall>a. attr_at soup1 q a = attr_at soup q a)"
  proof -
    fix q assume "is_tag_at soup q"
    then obtain t where t: "lookup soup q = Some t" "\<not> is_navigable_string t"
      by (auto simp: is_tag_at_def split: option.splits)
    have "q \<notin> ?P"
    proof
      assume "q \<in> ?P"
      then obtain n where "lookup soup q = Some n" "is_navigable_string n" using v1 by auto
      then show False using t by simp
    qed
    with s1(4) t(1) obtain t' where "lookup soup1 q = Some t'" "\<forall>a. get t' a = get t a"
      "is_navigable_string t' = is_navigable_string t" by blast
    then show "is_tag_at soup1 q \<and> (\<forall>a. attr_at soup1 q a = attr_at soup q a)"
      using t by (simp add: is_tag_at_def attr_at_def)
  qed
  \<comment> \<open>text runs\<close>
  have a: "\<forall>i<length nodes. lookup ?soup3 (fst (nodes ! i))
        = (if i < length node_texts then Some (NavigableString (safe_text (node_texts ! i)))
           else Some (snd (nodes ! i)))"
  proof (intro allI impI)
    fix i assume i: "i < length nodes"
    let ?want = "if i < length node_texts then NavigableString (safe_text (node_texts ! i)) else snd (nodes ! i)"
    have "lookup soup1 (fst (nodes ! i)) = Some ?want"
    proof (cases "i < length node_texts")
      case True
      then have "i < length ?pn" using i by simp
      then show ?thesis using s1(2) True i by auto
    next
      case False
      then have "fst (nodes ! i) \<notin> ?P" using zip_key_beyond[OF dn i, of node_texts] by simp
      then show ?thesis using s1(3) vn[OF i] False by auto
    qed
    moreover have "is_navigable_string ?want" using vn[OF i] by simp
    ultimately have "lookup ?soup3 (fst (nodes ! i)) = Some ?want"
      by (intro apply_writes_keeps_strings)
    then show "lookup ?soup3 (fst (nodes ! i))
        = (if i < length node_texts then Some (NavigableString (safe_text (node_texts ! i)))
           else Some (snd (nodes ! i)))" by simp
  qed
  \<comment> \<open>attributes\<close>
  have da: "distinct (map snd attr_items)" using A extract_attr_texts_distinct by simp
  have va: "\<And>i. i < length attr_items \<Longrightarrow>
      is_tag_at soup (fst (snd (attr_items ! i))) \<and>
      attr_at soup (fst (snd (attr_items ! i))) (snd (snd (attr_items ! i))) = Some (fst (attr_items ! i)) \<and>
      snd (snd (attr_items ! i)) \<in> set TRANSLATE_ATTRS"
  proof -
    fix i assume "i < length attr_items"
    then have "(fst (attr_items ! i), fst (snd (attr_items ! i)), snd (snd (attr_items ! i)))
        \<in> set (extract_attr_texts soup)" using A by simp
    then show "is_tag_at soup (fst (snd (attr_items ! i))) \<and>
      attr_at soup (fst (snd (attr_items ! i))) (snd (snd (attr_items ! i))) = Some (fst (attr_items ! i)) \<and>
      snd (snd (attr_items ! i)) \<in> set TRANSLATE_ATTRS"
      by (rule extract_attr_texts_valid)
  qed
  have wa_key: "\<And>j. j < length ?wa \<Longrightarrow> (fst (?wa ! j), fst (snd (?wa ! j))) = snd (fst (zip attr_items attr_texts ! j))"
    by (simp add: case_prod_beta)
  have wm_key: "\<And>j. j < length ?wm \<Longrightarrow> (fst (?wm ! j), fst (snd (?wm ! j))) = (snd (fst (zip meta_items meta_texts ! j)), ''content'')"
    by (simp add: case_prod_beta)
  have wm_other: "\<And>q a. a \<noteq> ''content'' \<Longrightarrow> \<forall>w\<in>set ?wm. (fst w, fst (snd w)) \<noteq> (q, a)"
    by (auto simp: case_prod_beta)
  have b: "\<forall>i<length attr_items.
        attr_at ?soup3 (fst (snd (attr_items ! i))) (snd (snd (attr_items ! i)))
        = (if i < length attr_texts then Some (safe_text (attr_texts ! i))
           else Some (fst (attr_items ! i)))"
  proof (intro allI impI)
    fix i assume i: "i < length attr_items"
    let ?tag = "fst (snd (attr_items ! i))" and ?attr = "snd (snd (attr_items ! i))"
    have nc: "?attr \<noteq> ''content''" using va[OF i] content_not_translatable by auto
    have "attr_at ?soup3 ?tag ?attr = attr_at ?soup2 ?tag ?attr"
      by (rule apply_writes_untouched) (rule wm_other[OF nc])
    also have "\<dots> = (if i < length attr_texts then Some (safe_text (attr_texts ! i))
           else Some (fst (attr_items ! i)))"
    proof (cases "i < length attr_texts")
      case True
      then have il: "i < length ?wa" using i by simp
      have wi: "?wa ! i = (?tag, ?attr, safe_text (attr_texts ! i))"
        using il i True by (simp add: case_prod_beta)
      have later: "\<forall>j. i < j \<and> j < length ?wa \<longrightarrow> (fst (?wa ! j), fst (snd (?wa ! j))) \<noteq> (?tag, ?attr)"
      proof (intro allI impI)
        fix j assume j: "i < j \<and> j < length ?wa"
        then have "j < length (zip attr_items attr_texts)" by simp
        from zip_key_later[OF da i _ this] j
        have "snd (fst (zip attr_items attr_texts ! j)) \<noteq> snd (attr_items ! i)" by simp
        then show "(fst (?wa ! j), fst (snd (?wa ! j))) \<noteq> (?tag, ?attr)"
          using wa_key[of j] j by simp
      qed
      have "is_tag_at soup1 ?tag" using tag1 va[OF i] by blast
      from apply_writes_last[OF il wi this later] True show ?thesis by simp
    next
      case False
      have "snd (attr_items ! i) \<notin> (\<lambda>x. snd (fst x)) ` set (zip attr_items attr_texts)"
        using zip_key_beyond[OF da i, of attr_texts] False by simp
      then have "\<forall>w\<in>set ?wa. (fst w, fst (snd w)) \<noteq> (?tag, ?attr)"
        by (force simp: case_prod_beta)
      then have "attr_at ?soup2 ?tag ?attr = attr_at soup1 ?tag ?attr"
        by (rule apply_writes_untouched)
      then show ?thesis using tag1 va[OF i] False by simp
    qed
    finally show "attr_at ?soup3 ?tag ?attr
        = (if i < length attr_texts then Some (safe_text (attr_texts ! i))
           else Some (fst (attr_items ! i)))" .
  qed
  \<comment> \<open>meta contents\<close>
  have vm: "\<And>i. i < length meta_items \<Longrightarrow>
      is_tag_at soup (snd (meta_items ! i)) \<and>
      attr_at soup (snd (meta_items ! i)) ''content'' = Some (fst (meta_items ! i))"
  proof -
    fix i assume "i < length meta_items"
    then have "(fst (meta_items ! i), snd (meta_items ! i)) \<in> set (extract_meta_descriptions soup)"
      using M by simp
    then show "is_tag_at soup (snd (meta_items ! i)) \<and>
      attr_at soup (snd (meta_items ! i)) ''content'' = Some (fst (meta_items ! i))"
      by (rule extract_meta_descriptions_valid)
  qed
  have wa_content: "\<And>q. \<forall>w\<in>set ?wa. (fst w, fst (snd w)) \<noteq> (q, ''content'')"
  proof
    fix q w assume "w \<in> set ?wa"
    then obtain x where x: "x \<in> set (zip attr_items attr_texts)"
      "w = (fst (snd (fst x)), snd (snd (fst x)), safe_text (snd x))"
      by (auto simp: case_prod_beta)
    then obtain j where "j < length attr_items" "fst x = attr_items ! j" by (auto simp: set_zip)
    then have "snd (snd (fst x)) \<noteq> ''content''" using va[of j] content_not_translatable by auto
    then show "(fst w, fst (snd w)) \<noteq> (q, ''content'')" using x(2) by auto
  qed
  have soup2_meta: "\<And>i. i < length meta_items \<Longrightarrow>
      is_tag_at ?soup2 (snd (meta_items ! i)) \<and>
      attr_at ?soup2 (snd (meta_items ! i)) ''content'' = Some (fst (meta_items ! i))"
  proof -
    fix i assume i: "i < length meta_items"
    have "attr_at ?soup2 (snd (meta_items ! i)) ''content'' = attr_at soup1 (snd (meta_items ! i)) ''content''"
      by (rule apply_writes_untouched) (rule wa_content)
    then show "is_tag_at ?soup2 (snd (meta_items ! i)) \<and>
      attr_at ?soup2 (snd (meta_items ! i)) ''content'' = Some (fst (meta_items ! i))"
      using tag1 vm[OF i] by (simp add: apply_writes_is_tag_at)
  qed
  have c: "\<forall>i<length meta_items.
        (i < length meta_texts \<longrightarrow>
         (\<forall>j. i < j \<and> j < length meta_items \<and> j < length meta_texts
              \<longrightarrow> snd (meta_items ! j) \<noteq> snd (meta_items ! i)) \<longrightarrow>
         attr_at ?soup3 (snd (meta_items ! i)) ''content'' = Some (safe_text (meta_texts ! i))) \<and>
        (length meta_texts \<le> i \<longrightarrow>
         (\<forall>j. j < length meta_items \<and> j < length meta_texts
              \<longrightarrow> snd (meta_items ! j) \<noteq> snd (meta_items ! i)) \<longrightarrow>
         attr_at ?soup3 (snd (meta_items ! i)) ''content'' = Some (fst (meta_items ! i)))"
  proof (intro allI impI conjI)
    fix i assume i: "i < length meta_items" and il: "i < length meta_texts"
      and last: "\<forall>j. i < j \<and> j < length meta_items \<and> j < length meta_texts
              \<longrightarrow> snd (meta_items ! j) \<noteq> snd (meta_items ! i)"
    let ?tag = "snd (meta_items ! i)"
    have iw: "i < length ?wm" using i il by simp
    have wi: "?wm ! i = (?tag, ''content'', safe_text (meta_texts ! i))"
      using i il by (simp add: case_prod_beta)
    have later: "\<forall>j. i < j \<and> j < length ?wm \<longrightarrow> (fst (?wm ! j), fst (snd (?wm ! j))) \<noteq> (?tag, ''content'')"
    proof (intro allI impI)
      fix j assume j: "i < j \<and> j < length ?wm"
      then have "snd (meta_items ! j) \<noteq> ?tag" using last by simp
      then show "(fst (?wm ! j), fst (snd (?wm ! j))) \<noteq> (?tag, ''content'')"
        using wm_key[of j] j by simp
    qed
    from apply_writes_last[OF iw wi _ later] soup2_meta[OF i]
    show "attr_at ?soup3 ?tag ''content'' = Some (safe_text (meta_texts ! i))" by blast
  next
    fix i assume i: "i < length meta_items" and il: "length meta_texts \<le> i"
      and none: "\<forall>j. j < length meta_items \<and> j < length meta_texts
              \<longrightarrow> snd (meta_items ! j) \<noteq> snd (meta_items ! i)"
    let ?tag = "snd (meta_items ! i)"
    have "\<forall>w\<in>set ?wm. (fst w, fst (snd w)) \<noteq> (?tag, ''content'')"
    proof
      fix w assume "w \<in> set ?wm"
      then obtain j where j: "j < length ?wm" "w = ?wm ! j" by (auto simp: in_set_conv_nth)
      then have "snd (meta_items ! j) \<noteq> ?tag" using none by simp
      then show "(fst w, fst (snd w)) \<noteq> (?tag, ''content'')" using wm_key[of j] j by simp
    qed
    then have "attr_at ?soup3 ?tag ''content'' = attr_at ?soup2 ?tag ''content''"
      by (rule apply_writes_untouched)
    then show "attr_at ?soup3 ?tag ''content'' = Some (fst (meta_items ! i))"
      using soup2_meta[OF i] by simp
  qed
  show ?thesis using res a b c by blast
qed

theorem replace_in_html_overwrites_witness:
  "\<exists>soup'.
     replace_in_html sample_doc (extract_text_nodes sample_doc) [Some ''A'']
       (extract_attr_texts sample_doc) [None] (extract_meta_descriptions sample_doc) [Some ''D'']
       = Inr soup' \<and>
     lookup soup' [0, 1, 0, 0] = Some (NavigableString ''A'') \<and>
     lookup soup' [0, 1, 1] = Some (NavigableString ''b'') \<and>
     attr_at soup' [0, 1, 0] ''title'' = Some [] \<and>
     attr_at soup' [0, 0, 0] ''content'' = Some ''D''"
proof -
  have n: "extract_text_nodes sample_doc
      = [([0, 1, 0, 0], NavigableString ''a''), ([0, 1, 1], NavigableString ''b'')]"
    by code_simp
  have a: "extract_attr_texts sample_doc = [(''t'', [0, 1, 0], ''title'')]"
    by code_simp
  have m: "extract_meta_descriptions sample_doc = [(''d'', [0, 0, 0])]"
    by code_simp
  from replace_in_html_overwrites[OF refl refl refl,
      of sample_doc "[Some ''A'']" "[None]" "[Some ''D'']"]
  obtain soup' where r:
    "replace_in_html sample_doc (extract_text_nodes sample_doc) [Some ''A'']
       (extract_attr_texts sample_doc) [None] (extract_meta_descriptions sample_doc) [Some ''D'']
       = Inr soup'"
    and t: "\<forall>i<length (extract_text_nodes sample_doc).
        lookup soup' (fst (extract_text_nodes sample_doc ! i))
        = (if i < length [Some ''A''] then Some (NavigableString (safe_text ([Some ''A''] ! i)))
           else Some (snd (extract_text_nodes sample_doc ! i)))"
    and at: "\<forall>i<length (extract_attr_texts sample_doc).
        attr_at soup' (fst (snd (extract_attr_texts sample_doc ! i)))
          (snd (snd (extract_attr_texts sample_doc ! i)))
        = (if i < length [None :: string option] then Some (safe_text ([None] ! i))
           else Some (fst (extract_attr_texts sample_doc ! i)))"
    and mt: "\<forall>i<length (extract_meta_descriptions sample_doc).
        (i < length [Some ''D''] \<longrightarrow>
         (\<forall>j. i < j \<and> j < length (extract_meta_descriptions sample_doc) \<and> j < length [Some ''D'']
              \<longrightarrow> snd (extract_meta_descriptions sample_doc ! j)
                  \<noteq> snd (extract_meta_descriptions sample_doc ! i)) \<longrightarrow>
         attr_at soup' (snd (extract_meta_descriptions sample_doc ! i)) ''content''
           = Some (safe_text ([Some ''D''] ! i))) \<and>
        (length [Some ''D''] \<le> i \<longrightarrow>
         (\<forall>j. j < length (extract_meta_descriptions sample_doc) \<and> j < length [Some ''D'']
              \<longrightarrow> snd (extract_meta_descriptions sample_doc ! j)
                  \<noteq> snd (extract_meta_descriptions sample_doc ! i)) \<longrightarrow>
         attr_at soup' (snd (extract_meta_descriptions sample_doc ! i)) ''content''
           = Some (fst (extract_meta_descriptions sample_doc ! i)))"
    by blast
  have t0: "lookup soup' [0, 1, 0, 0] = Some (NavigableString ''A'')"
    using t[rule_format, of 0] by (simp add: n safe_text_def)
  have t1: "lookup soup' [0, 1, 1] = Some (NavigableString ''b'')"
    using t[rule_format, of 1] by (simp add: n)
  have a0: "attr_at soup' [0, 1, 0] ''title'' = Some []"
    using at[rule_format, of 0] by (simp add: a safe_text_def)
  have m0: "attr_at soup' [0, 0, 0] ''content'' = Some ''D''"
    using mt[rule_format, of 0] by (auto simp: m safe_text_def)
  show ?thesis using r t0 t1 a0 m0 by blast
qed

section \<open>The locale annotator\<close>

lemma count_scan_char: "count_scan s [c] = length (filter (\<lambda>x. x = c) s)"
  by (induction s "[c]" rule: count_scan.induct) auto

lemma py_count_slash: "py_count s ''/'' = int (length (filter (\<lambda>x. x = CHR ''/'') s))"
  by (simp add: py_count_def count_scan_char)

lemma alternate_link_uz:
  "alternate_link rel_path True =
     Tag ''link'' [(''rel'', ''alternate''), (''hreflang'', ''ru''),
       (''href'', concat (replicate (Suc (length (filter (\<lambda>x. x = CHR ''/'') rel_path))) ''../'') @ rel_path)] []"
proof -
  have "nat (int (length (filter (\<lambda>x. x = CHR ''/'') rel_path)) + 1)
      = Suc (length (filter (\<lambda>x. x = CHR ''/'') rel_path))" by simp
  then show ?thesis
    by (simp only: alternate_link_def py_count_slash py_mul_def Let_def if_True)
qed

lemma alternate_link_ru:
  "alternate_link rel_path False =
     Tag ''link'' [(''rel'', ''alternate''), (''hreflang'', ''uz''),
       (''href'', concat (replicate (length (filter (\<lambda>x. x = CHR ''/'') rel_path)) ''../'')
                  @ ''uz/'' @ rel_path)] []"
  by (simp add: alternate_link_def py_count_slash py_mul_def Let_def)

lemma first_match_member:
  "first_match accept es = Some p \<Longrightarrow> \<exists>pn n. (p, pn, n) \<in> set es \<and> accept n"
  by (induction accept es rule: first_match.induct) (auto split: if_splits)

lemma find_valid: "find soup accept = Some p \<Longrightarrow> \<exists>n. lookup soup p = Some n \<and> accept n"
  unfolding find_def using first_match_member descendants_lookup by blast

lemma named_Tag: "named name n \<Longrightarrow> \<exists>attrs kids. n = Tag name attrs kids"
  by (cases n) (auto simp: named_def)

lemma append_child_lookup:
  "lookup soup p = Some (Tag name attrs kids) \<Longrightarrow>
   lookup (append_child soup p child) p = Some (Tag name attrs (kids @ [child]))"
  using lookup_update_at_self[of soup p "Tag name attrs kids"]
  by (simp add: append_child_def)

lemma insert_first_lookup:
  "lookup soup p = Some (Tag name attrs kids) \<Longrightarrow>
   lookup (insert_first soup p child) (p @ [0]) = Some child"
  using lookup_update_at_below[of soup p "Tag name attrs kids" "[0]"]
  by (simp add: insert_first_def)

lemma set_item_Tag:
  "lookup soup p = Some (Tag name attrs kids) \<Longrightarrow>
   lookup (set_item soup p key v) p = Some (Tag name (dict_set attrs key v) kids)"
  using lookup_update_at_self[of soup p "Tag name attrs kids"]
  by (simp add: set_item_def)

lemma link_in_head:
  "\<exists>head attrs kids.
     lookup (set_lang_and_hreflang soup rel_path is_uz_page) head
       = Some (Tag ''head'' attrs (kids @ [alternate_link rel_path is_uz_page]))"
proof -
  let ?link = "alternate_link rel_path is_uz_page"
  obtain soup1 html_tag where h: "(case find soup (named ''html'') of
              Some html_tag \<Rightarrow> (soup, html_tag)
            | None \<Rightarrow>
                (let body = Tag ''body'' [] (filter (\<lambda>child. \<not> is_doctype child) soup);
                     kept = filter is_doctype soup
                 in (kept @ [Tag ''html'' [] [body]], [length kept]))) = (soup1, html_tag)"
    by (metis surj_pair)
  have v1: "\<exists>attrs kids. lookup soup1 html_tag = Some (Tag ''html'' attrs kids)"
  proof (cases "find soup (named ''html'')")
    case None
    then have "soup1 = filter is_doctype soup @ [Tag ''html'' []
        [Tag ''body'' [] (filter (\<lambda>child. \<not> is_doctype child) soup)]]"
      "html_tag = [length (filter is_doctype soup)]" using h by (auto simp: Let_def)
    then show ?thesis by simp
  next
    case (Some p)
    then have "soup1 = soup" "html_tag = p" using h by auto
    then show ?thesis using find_valid[OF Some] named_Tag by blast
  qed
  define lang where "lang = (if is_uz_page then ''uz''
                    else (case lookup soup1 html_tag of
                            Some t \<Rightarrow> (case get t ''lang'' of
                                         Some v \<Rightarrow> if v \<noteq> [] then v else ''ru''
                                       | None \<Rightarrow> ''ru'')
                          | None \<Rightarrow> ''ru''))"
  let ?soup2 = "set_item soup1 html_tag ''lang'' lang"
  from v1 obtain ha hk where "lookup soup1 html_tag = Some (Tag ''html'' ha hk)" by blast
  then have v2: "lookup ?soup2 html_tag = Some (Tag ''html'' (dict_set ha ''lang'' lang) hk)"
    by (rule set_item_Tag)
  obtain soup3 head where hd: "(case find ?soup2 (named ''head'') of
                   Some head \<Rightarrow> (?soup2, head)
                 | None \<Rightarrow> (insert_first ?soup2 html_tag (Tag ''head'' [] []), html_tag @ [0]))
       = (soup3, head)" by (metis surj_pair)
  have v3: "\<exists>attrs kids. lookup soup3 head = Some (Tag ''head'' attrs kids)"
  proof (cases "find ?soup2 (named ''head'')")
    case None
    then have "soup3 = insert_first ?soup2 html_tag (Tag ''head'' [] [])" "head = html_tag @ [0]"
      using hd by auto
    then show ?thesis using insert_first_lookup[OF v2] by simp
  next
    case (Some p)
    then have "soup3 = ?soup2" "head = p" using hd by auto
    then show ?thesis using find_valid[OF Some] named_Tag by blast
  qed
  then obtain attrs kids where "lookup soup3 head = Some (Tag ''head'' attrs kids)" by blast
  then have "lookup (append_child soup3 head ?link) head = Some (Tag ''head'' attrs (kids @ [?link]))"
    by (rule append_child_lookup)
  moreover have "set_lang_and_hreflang soup rel_path is_uz_page
      = (case (case find ?soup2 (named ''head'') of
                   Some head \<Rightarrow> (?soup2, head)
                 | None \<Rightarrow> (insert_first ?soup2 html_tag (Tag ''head'' [] []), html_tag @ [0]))
         of (soup3, head) \<Rightarrow> append_child soup3 head ?link)"
    unfolding set_lang_and_hreflang_def h by (simp only: prod.case Let_def lang_def)
  then have "set_lang_and_hreflang soup rel_path is_uz_page = append_child soup3 head ?link"
    unfolding hd by (simp only: prod.case)
  ultimately show ?thesis by metis
qed


text \<open>
  C7.  After \<open>set_lang_and_hreflang\<close> the last child of a \<open>head\<close> element is the
  alternate link.  With \<open>d\<close> the number of \<open>/\<close> in the relative path \<open>P\<close>, its \<open>href\<close>
  is \<open>d + 1\<close> times \<open>../\<close> followed by \<open>P\<close> in the translated-output role, and \<open>d\<close> times
  \<open>../\<close>, then \<open>uz/\<close>, then \<open>P\<close> in the source-annotation role.
\<close>

theorem alternate_link_href:
  "(\<exists>head attrs kids.
      lookup (set_lang_and_hreflang soup rel_path True) head
        = Some (Tag ''head'' attrs (kids @
            [Tag ''link'' [(''rel'', ''alternate''), (''hreflang'', ''ru''),
               (''href'', concat (replicate (Suc (length (filter (\<lambda>x. x = CHR ''/'') rel_path))) ''../'')
                          @ rel_path)] []]))) \<and>
   (\<exists>head attrs kids.
      lookup (set_lang_and_hreflang soup rel_path False) head
        = Some (Tag ''head'' attrs (kids @
            [Tag ''link'' [(''rel'', ''alternate''), (''hreflang'', ''uz''),
               (''href'', concat (replicate (length (filter (\<lambda>x. x = CHR ''/'') rel_path)) ''../'')
                          @ ''uz/'' @ rel_path)] []])))"
  using link_in_head[of soup rel_path True] link_in_head[of soup rel_path False]
  by (simp only: alternate_link_uz alternate_link_ru)

theorem alternate_link_href_witness:
  "(\<exists>head attrs kids.
      lookup (set_lang_and_hreflang bare_page ''a/b/c.html'' True) head
        = Some (Tag ''head'' attrs (kids @
            [Tag ''link'' [(''rel'', ''alternate''), (''hreflang'', ''ru''),
               (''href'', ''../../../a/b/c.html'')] []]))) \<and>
   (\<exists>head attrs kids.
      lookup (set_lang_and_hreflang bare_page ''c.html'' True) head
        = Some (Tag ''head'' attrs (kids @
            [Tag ''link'' [(''rel'', ''alternate''), (''hreflang'', ''ru''),
               (''href'', ''../c.html'')] []]))) \<and>
   (\<exists>head attrs kids.
      lookup (set_lang_and_hreflang bare_page ''a/b/c.html'' False) head
        = Some (Tag ''head'' attrs (kids @
            [Tag ''link'' [(''rel'', ''alternate''), (''hreflang'', ''uz''),
               (''href'', ''../../uz/a/b/c.html'')] []])))"
  using alternate_link_href[of bare_page "''a/b/c.html''"]
    alternate_link_href[of bare_page "''c.html''"]
  by simp

text \<open>
  C8 (the code breaks the claim).  \<open>process_html_file\<close> removes nothing before it injects:
  run on its own output it leaves two alternate links to the source and two switch
  controls, and run on a source page that \<open>process_russian_html_file\<close> has annotated (the
  order of \<open>main\<close>) its output carries two switch controls.  The source-annotation role
  does remove what it injected before: run twice it leaves one link and one control.
\<close>

theorem translated_page_annotated_twice:
  "count_nodes (is_alternate ''ru'')
     (written (process_html_file no_regex default_translator echo_service
        (written (process_html_file no_regex default_translator echo_service
           bare_page ''b.html'' Map.empty [] []))
        ''b.html'' Map.empty [] [])) = 2 \<and>
   count_nodes is_switcher
     (written (process_html_file no_regex default_translator echo_service
        (written (process_html_file no_regex default_translator echo_service
           bare_page ''b.html'' Map.empty [] []))
        ''b.html'' Map.empty [] [])) = 2 \<and>
   count_nodes is_switcher
     (written (process_html_file no_regex default_translator echo_service
        (process_russian_html_file bare_page ''b.html'') ''b.html'' Map.empty [] [])) = 2 \<and>
   count_nodes (is_alternate ''uz'')
     (process_russian_html_file (process_russian_html_file bare_page ''b.html'') ''b.html'') = 1 \<and>
   count_nodes is_switcher
     (process_russian_html_file (process_russian_html_file bare_page ''b.html'') ''b.html'') = 1"
  by code_simp

end
